theory Spec2Isabelle
  imports Main "HOL-Library.Word"
begin

unbundle bit_operations_syntax

section \<open>The TIPC name table (net/tipc/name_table.c)\<close>

text \<open>
  A shallow embedding of the name table of \<^verbatim>\<open>net/tipc/name_table.c\<close>: the sub-sequence
  array of a name sequence with its two binary searches, publication insert and remove,
  subscription, translation and lookup.  The locks and the RCU discipline are not
  modelled: every function below runs alone on the state it is given.

  Conventions of the embedding.
  \<^item> \<^verbatim>\<open>u32\<close> fields are 32-bit words; comparison on them is unsigned, as in C.
  \<^item> The array indices \<^verbatim>\<open>low\<close>, \<^verbatim>\<open>high\<close>, \<^verbatim>\<open>mid\<close> (C \<^verbatim>\<open>int\<close>) are integers;
    the counts \<^verbatim>\<open>alloc\<close> and \<^verbatim>\<open>first_free\<close> are natural numbers (an array of
    \<open>2 ^ 31\<close> sub-sequences cannot be allocated, so they never wrap).
  \<^item> A kernel list (\<^verbatim>\<open>struct list_head\<close>) is the list of its entries from the head on:
    \<^verbatim>\<open>list_add\<close> puts an entry in front, \<^verbatim>\<open>list_move_tail\<close> moves it to the end.
  \<^item> A publication is written once by \<^verbatim>\<open>publ_create\<close> and never changed; the lists hold
    its value, and \<^verbatim>\<open>list_del\<close> and \<^verbatim>\<open>list_move_tail\<close> find an entry by its value.  The
    duplicate test of the insert keeps the entries of \<open>all_publ\<close> pairwise different, and
    \<open>local_publ\<close> holds entries of \<open>all_publ\<close>: a list then has one entry of a value, the
    entry the code has the pointer to (the property \<open>lists_ok\<close> below, which insert and
    remove keep).  The one exception is a remove made with the address of another node
    that takes a publication whose node is zero: the code leaves it on \<open>local_publ\<close>, and
    so does the model; if an equal publication is inserted afterwards, \<open>local_publ\<close>
    holds two entries of one value, and the order a later remove leaves there can differ
    from the code's.  \<^verbatim>\<open>tipc_nametbl_withdraw\<close> removes with this node's own address.
  \<^item> A function that changes a structure through a pointer returns the changed structure.
\<close>

type_synonym u32 = "32 word"
type_synonym u64 = "64 word"

subsection \<open>Memory allocation\<close>

text \<open>
  \<^verbatim>\<open>kzalloc\<close>, \<^verbatim>\<open>kcalloc\<close> and \<^verbatim>\<open>kmalloc\<close> with \<^verbatim>\<open>GFP_ATOMIC\<close> may return NULL.
  A value of \<open>kmem\<close> lists the outcomes of the allocation requests still to come, in the
  order in which the code makes them (\<open>True\<close>: memory is returned, \<open>False\<close>: NULL);
  a request made when the list is used up succeeds.  So \<open>[]\<close> is a run in which no
  allocation fails.
\<close>

type_synonym kmem = "bool list"

fun kmalloc :: "kmem \<Rightarrow> bool \<times> kmem" where
  "kmalloc [] = (True, [])"
| "kmalloc (ok # rest) = (ok, rest)"

subsection \<open>Data\<close>

text \<open>\<^verbatim>\<open>struct publication\<close> (name_table.h); the list links are the lists below.\<close>

record publication =
  p_type :: u32
  p_lower :: u32
  p_upper :: u32
  p_scope :: u32
  p_node :: u32
  p_port :: u32
  p_key :: u32

text \<open>\<^verbatim>\<open>struct name_info\<close>: the publications of this node, and all publications.\<close>

record name_info =
  local_publ :: "publication list"
  all_publ :: "publication list"

text \<open>
  \<^verbatim>\<open>struct sub_seq\<close>.  The field \<open>info\<close> holds the \<^verbatim>\<open>name_info\<close> the slot's pointer refers
  to: every slot below \<^verbatim>\<open>first_free\<close> owns the \<^verbatim>\<open>name_info\<close> the insert allocated for it,
  and the functions below read \<^verbatim>\<open>info\<close> in those slots only.  A slot zeroed by
  \<^verbatim>\<open>kcalloc\<close> or \<^verbatim>\<open>memset\<close> is \<open>zero_sub_seq\<close>.
\<close>

record sub_seq =
  ss_lower :: u32
  ss_upper :: u32
  info :: name_info

definition empty_info :: name_info where
  "empty_info = \<lparr>local_publ = [], all_publ = []\<rparr>"

definition zero_sub_seq :: sub_seq where
  "zero_sub_seq = \<lparr>ss_lower = 0, ss_upper = 0, info = empty_info\<rparr>"

text \<open>
  \<^verbatim>\<open>struct tipc_subscription\<close>, as far as the name table reads it: the fields
  \<^verbatim>\<open>evt.s.seq.type\<close>, \<^verbatim>\<open>evt.s.seq.lower\<close>, \<^verbatim>\<open>evt.s.seq.upper\<close> and \<^verbatim>\<open>evt.s.filter\<close>, as
  \<^verbatim>\<open>tipc_sub_read\<close> returns them.
\<close>

record tipc_subscription =
  s_type :: u32
  s_lower :: u32
  s_upper :: u32
  s_filter :: u32

text \<open>\<^verbatim>\<open>struct tipc_name_seq\<close> (uapi): a type with a range of instances.\<close>

record tipc_name_seq =
  tns_type :: u32
  tns_lower :: u32
  tns_upper :: u32

text \<open>
  \<^verbatim>\<open>struct name_seq\<close>: \<open>sseqs\<close> is the whole array of \<open>alloc\<close> slots, of which the first
  \<open>first_free\<close> are in use.
\<close>

record name_seq =
  ns_type :: u32
  sseqs :: "sub_seq list"
  alloc :: nat
  first_free :: nat
  subscriptions :: "tipc_subscription list"

text \<open>
  \<^verbatim>\<open>struct name_table\<close>: the array \<^verbatim>\<open>seq_hlist[TIPC_NAMETBL_SIZE]\<close> of hash chains, read at
  the indices \<open>hash\<close> returns.
\<close>

record name_table =
  seq_hlist :: "nat \<Rightarrow> name_seq list"

text \<open>
  What the name table takes from the rest of TIPC, whose code is not part of these
  sources, as parameters: this node's address \<^verbatim>\<open>tn->own_addr\<close>, the constants
  \<^verbatim>\<open>TIPC_NODE_SCOPE\<close> (the largest scope) and \<^verbatim>\<open>TIPC_SUB_NO_STATUS\<close> (a filter bit), and the
  address tests \<^verbatim>\<open>in_own_node(net, addr)\<close> and \<^verbatim>\<open>tipc_in_scope(domain, addr)\<close> of addr.h and
  addr.c.
\<close>

record tipc_net =
  own_addr :: u32
  TIPC_NODE_SCOPE :: u32
  TIPC_SUB_NO_STATUS :: u32
  in_own_node :: "u32 \<Rightarrow> bool"
  tipc_in_scope :: "u32 \<Rightarrow> u32 \<Rightarrow> bool"

text \<open>
  One call of \<^verbatim>\<open>tipc_sub_report_overlap(sub, found_lower, found_upper, event, port, node,
  scope, must)\<close>, the event the name table delivers to a subscription.
\<close>

datatype event = TIPC_PUBLISHED | TIPC_WITHDRAWN

datatype report = Report_overlap tipc_subscription u32 u32 event u32 u32 u32 bool

text \<open>
  Modelled from the spec: \<^verbatim>\<open>tipc_sub_check_overlap\<close> is defined in subscr.c, which is not
  part of these sources.  Section 4.4 of the specification: the overlap test is the
  intersection of the subscription's range with the closed interval \<open>[lower, upper]\<close>.
\<close>

definition tipc_sub_check_overlap :: "tipc_name_seq \<Rightarrow> u32 \<Rightarrow> u32 \<Rightarrow> bool" where
  "tipc_sub_check_overlap seq found_lower found_upper =
     (max found_lower (tns_lower seq) \<le> min found_upper (tns_upper seq))"

text \<open>
  An access that the C code makes outside of an object: \<^verbatim>\<open>list_first_entry\<close> of an empty
  list (the entry it returns is no publication), \<^verbatim>\<open>list_del\<close> of an entry that is on no
  list (its links are NULL).
\<close>

datatype fault = Bad_list_access

subsection \<open>Kernel lists\<close>

definition list_add :: "'a \<Rightarrow> 'a list \<Rightarrow> 'a list" where
  "list_add new head = new # head"

definition list_first_entry :: "'a list \<Rightarrow> fault + 'a" where
  "list_first_entry head = (case head of [] \<Rightarrow> Inl Bad_list_access | e # _ \<Rightarrow> Inr e)"

definition list_del :: "'a \<Rightarrow> 'a list \<Rightarrow> fault + 'a list" where
  "list_del entry head =
     (if entry \<in> set head then Inr (remove1 entry head) else Inl Bad_list_access)"

definition list_move_tail :: "'a \<Rightarrow> 'a list \<Rightarrow> 'a list" where
  "list_move_tail entry head = remove1 entry head @ [entry]"

text \<open>
  \<^verbatim>\<open>memmove(a + dst, a + src, n * sizeof( *a))\<close> on an array \<open>a\<close>, where both ranges lie
  inside the array.
\<close>

definition memmove :: "'a list \<Rightarrow> nat \<Rightarrow> nat \<Rightarrow> nat \<Rightarrow> 'a list" where
  "memmove a dst src n = take dst a @ take n (drop src a) @ drop (dst + n) a"

subsection \<open>Creating publications and name sequences\<close>

definition hash :: "u32 \<Rightarrow> nat" where
  "hash x = unat (x AND 1023)"

definition publ_create ::
  "u32 \<Rightarrow> u32 \<Rightarrow> u32 \<Rightarrow> u32 \<Rightarrow> u32 \<Rightarrow> u32 \<Rightarrow> u32 \<Rightarrow> kmem \<Rightarrow> publication option \<times> kmem" where
  "publ_create type lower upper scope node port key m =
     (case kmalloc m of (ok, m') \<Rightarrow>
        if \<not> ok then (None, m')
        else (Some \<lparr>p_type = type, p_lower = lower, p_upper = upper, p_scope = scope,
                     p_node = node, p_port = port, p_key = key\<rparr>, m'))"

definition tipc_subseq_alloc :: "nat \<Rightarrow> kmem \<Rightarrow> sub_seq list option \<times> kmem" where
  "tipc_subseq_alloc cnt m =
     (case kmalloc m of (ok, m') \<Rightarrow>
        if \<not> ok then (None, m') else (Some (replicate cnt zero_sub_seq), m'))"

text \<open>
  \<^verbatim>\<open>tipc_nameseq_create\<close>: both allocations are made before either is tested; the new
  sequence is put in front of the hash chain \<open>seq_head\<close>.
\<close>

definition tipc_nameseq_create ::
  "u32 \<Rightarrow> name_seq list \<Rightarrow> kmem \<Rightarrow> name_seq option \<times> name_seq list \<times> kmem" where
  "tipc_nameseq_create type seq_head m =
     (case kmalloc m of (nseq_ok, m1) \<Rightarrow>
      case tipc_subseq_alloc 1 m1 of (sseq, m2) \<Rightarrow>
        (case sseq of
           None \<Rightarrow> (None, seq_head, m2)
         | Some array \<Rightarrow>
             if \<not> nseq_ok then (None, seq_head, m2)
             else
               (let nseq = \<lparr>ns_type = type, sseqs = array, alloc = 1, first_free = 0,
                            subscriptions = []\<rparr>
                in (Some nseq, nseq # seq_head, m2))))"

subsection \<open>The binary searches\<close>

text \<open>
  \<^verbatim>\<open>nameseq_find_subseq\<close>: the index of the slot it returns a pointer to, or \<open>None\<close> for
  NULL.  In the loop \<open>0 \<le> low \<le> high\<close>, so that C's division, which truncates, is \<open>div\<close>.
\<close>

function find_subseq_loop :: "sub_seq list \<Rightarrow> u32 \<Rightarrow> int \<Rightarrow> int \<Rightarrow> nat option" where
  "find_subseq_loop array inst low high =
     (if low \<le> high then
        (let mid = (low + high) div 2 in
         if inst < ss_lower (array ! nat mid) then find_subseq_loop array inst low (mid - 1)
         else if inst > ss_upper (array ! nat mid) then find_subseq_loop array inst (mid + 1) high
         else Some (nat mid))
      else None)"
  by pat_completeness auto
termination
  by (relation "measure (\<lambda>(array, inst, low, high). nat (high - low + 1))") auto

definition nameseq_find_subseq :: "name_seq \<Rightarrow> u32 \<Rightarrow> nat option" where
  "nameseq_find_subseq nseq inst =
     find_subseq_loop (sseqs nseq) inst 0 (int (first_free nseq) - 1)"

function locate_subseq_loop :: "sub_seq list \<Rightarrow> u32 \<Rightarrow> int \<Rightarrow> int \<Rightarrow> nat" where
  "locate_subseq_loop array inst low high =
     (if low \<le> high then
        (let mid = (low + high) div 2 in
         if inst < ss_lower (array ! nat mid) then locate_subseq_loop array inst low (mid - 1)
         else if inst > ss_upper (array ! nat mid) then locate_subseq_loop array inst (mid + 1) high
         else nat mid)
      else nat low)"
  by pat_completeness auto
termination
  by (relation "measure (\<lambda>(array, inst, low, high). nat (high - low + 1))") auto

definition nameseq_locate_subseq :: "name_seq \<Rightarrow> u32 \<Rightarrow> nat" where
  "nameseq_locate_subseq nseq inst =
     locate_subseq_loop (sseqs nseq) inst 0 (int (first_free nseq) - 1)"

subsection \<open>Publication insert\<close>

text \<open>
  Lines 258 to 272 of \<^verbatim>\<open>tipc_nameseq_insert_publ\<close>: when the array is full, an array of
  twice the size is allocated, the old slots are copied into it and the old array is
  freed.  \<open>None\<close> when the allocation fails.
\<close>

definition ensure_space :: "name_seq \<Rightarrow> kmem \<Rightarrow> name_seq option \<times> kmem" where
  "ensure_space nseq m =
     (if first_free nseq = alloc nseq then
        (case tipc_subseq_alloc (alloc nseq * 2) m of (new_array, m') \<Rightarrow>
           (case new_array of
              None \<Rightarrow> (None, m')
            | Some array \<Rightarrow>
                (Some (nseq\<lparr>sseqs := take (alloc nseq) (sseqs nseq) @ drop (alloc nseq) array,
                             alloc := alloc nseq * 2\<rparr>), m')))
      else (Some nseq, m))"

text \<open>
  Lines 296 to 313, the end of \<^verbatim>\<open>tipc_nameseq_insert_publ\<close> that both branches reach:
  the publication is created and put in front of the lists of the sub-sequence at index
  \<open>i\<close>, and every subscription of the sequence is told.
\<close>

definition insert_a_publication ::
  "tipc_net \<Rightarrow> name_seq \<Rightarrow> nat \<Rightarrow> bool \<Rightarrow> u32 \<Rightarrow> u32 \<Rightarrow> u32 \<Rightarrow> u32 \<Rightarrow> u32 \<Rightarrow> u32 \<Rightarrow> u32 \<Rightarrow> kmem
     \<Rightarrow> publication option \<times> report list \<times> name_seq \<times> kmem" where
  "insert_a_publication net nseq i created_subseq type lower upper scope node port key m =
     (case publ_create type lower upper scope node port key m of (created, m') \<Rightarrow>
        (case created of
           None \<Rightarrow> (None, [], nseq, m')
         | Some publ \<Rightarrow>
             (let sseq = sseqs nseq ! i;
                  ninfo = info sseq;
                  ninfo1 = ninfo\<lparr>all_publ := list_add publ (all_publ ninfo)\<rparr>;
                  ninfo2 = (if in_own_node net node
                          then ninfo1\<lparr>local_publ := list_add publ (local_publ ninfo1)\<rparr>
                          else ninfo1)
              in (Some publ,
                  map (\<lambda>s. Report_overlap s (p_lower publ) (p_upper publ) TIPC_PUBLISHED
                              (p_port publ) (p_node publ) (p_scope publ) created_subseq)
                      (subscriptions nseq),
                  nseq\<lparr>sseqs := (sseqs nseq)[i := sseq\<lparr>info := ninfo2\<rparr>]\<rparr>,
                  m'))))"

text \<open>
  \<^verbatim>\<open>tipc_nameseq_insert_publ\<close>.  The result is the publication (\<open>None\<close> for NULL), the
  reports made, the name sequence as the call leaves it, and the allocations left.
\<close>

definition tipc_nameseq_insert_publ ::
  "tipc_net \<Rightarrow> name_seq \<Rightarrow> u32 \<Rightarrow> u32 \<Rightarrow> u32 \<Rightarrow> u32 \<Rightarrow> u32 \<Rightarrow> u32 \<Rightarrow> u32 \<Rightarrow> kmem
     \<Rightarrow> publication option \<times> report list \<times> name_seq \<times> kmem" where
  "tipc_nameseq_insert_publ net nseq type lower upper scope node port key m =
     (case nameseq_find_subseq nseq lower of
        Some i \<Rightarrow>
          (let sseq = sseqs nseq ! i in
           if ss_lower sseq \<noteq> lower \<or> ss_upper sseq \<noteq> upper then (None, [], nseq, m)
           else if list_ex (\<lambda>publ. p_port publ = port \<and> p_key publ = key \<and>
                                    (p_node publ = 0 \<or> p_node publ = node))
                     (all_publ (info sseq))
           then (None, [], nseq, m)
           else insert_a_publication net nseq i False type lower upper scope node port key m)
      | None \<Rightarrow>
          (let inspos = nameseq_locate_subseq nseq lower in
           if inspos < first_free nseq \<and> upper \<ge> ss_lower (sseqs nseq ! inspos)
           then (None, [], nseq, m)
           else
             (case ensure_space nseq m of (grown, m1) \<Rightarrow>
                (case grown of
                   None \<Rightarrow> (None, [], nseq, m1)
                 | Some nseq1 \<Rightarrow>
                     (case kmalloc m1 of (info_ok, m2) \<Rightarrow>
                        if \<not> info_ok then (None, [], nseq1, m2)
                        else
                          (let moved = memmove (sseqs nseq1) (inspos + 1) inspos
                                         (first_free nseq1 - inspos);
                               nseq2 = nseq1\<lparr>sseqs := moved[inspos :=
                                          \<lparr>ss_lower = lower, ss_upper = upper, info = empty_info\<rparr>],
                                        first_free := first_free nseq1 + 1\<rparr>
                           in insert_a_publication net nseq2 inspos True
                                type lower upper scope node port key m2))))))"

subsection \<open>Publication remove\<close>

text \<open>
  \<^verbatim>\<open>tipc_nameseq_remove_publ\<close>.  \<^verbatim>\<open>free\<close> points at the slot \<^verbatim>\<open>first_free\<close> names before
  it is decremented, so \<^verbatim>\<open>memmove\<close> moves the \<open>first_free - (i + 1)\<close> slots above the slot
  \<open>i\<close> down by one.
\<close>

definition tipc_nameseq_remove_publ ::
  "tipc_net \<Rightarrow> name_seq \<Rightarrow> u32 \<Rightarrow> u32 \<Rightarrow> u32 \<Rightarrow> u32
     \<Rightarrow> fault + (publication option \<times> report list \<times> name_seq)" where
  "tipc_nameseq_remove_publ net nseq inst node port key =
     (case nameseq_find_subseq nseq inst of
        None \<Rightarrow> Inr (None, [], nseq)
      | Some i \<Rightarrow>
          (let sseq = sseqs nseq ! i; ninfo = info sseq in
           case find (\<lambda>publ. p_key publ = key \<and> p_port publ = port \<and>
                             (p_node publ = 0 \<or> p_node publ = node)) (all_publ ninfo) of
             None \<Rightarrow> Inr (None, [], nseq)
           | Some publ \<Rightarrow>
               (case list_del publ (all_publ ninfo) of
                  Inl f \<Rightarrow> Inl f
                | Inr all' \<Rightarrow>
                    (case (if in_own_node net node then list_del publ (local_publ ninfo)
                           else Inr (local_publ ninfo)) of
                       Inl f \<Rightarrow> Inl f
                     | Inr local' \<Rightarrow>
                         (let removed_subseq = (all' = []);
                              nseq' =
                                (if removed_subseq
                                 then nseq\<lparr>sseqs := memmove (sseqs nseq) i (i + 1)
                                                       (first_free nseq - (i + 1)),
                                           first_free := first_free nseq - 1\<rparr>
                                 else nseq\<lparr>sseqs := (sseqs nseq)[i := sseq\<lparr>info :=
                                           \<lparr>local_publ = local', all_publ = all'\<rparr>\<rparr>]\<rparr>)
                          in Inr (Some publ,
                                  map (\<lambda>s. Report_overlap s (p_lower publ) (p_upper publ)
                                              TIPC_WITHDRAWN (p_port publ) (p_node publ)
                                              (p_scope publ) removed_subseq)
                                      (subscriptions nseq),
                                  nseq'))))))"

subsection \<open>Subscription\<close>

text \<open>The inner loop of \<^verbatim>\<open>tipc_nameseq_subscribe\<close> over the list \<^verbatim>\<open>all_publ\<close>.\<close>

fun report_publs :: "tipc_subscription \<Rightarrow> sub_seq \<Rightarrow> bool \<Rightarrow> publication list \<Rightarrow> report list" where
  "report_publs sub sseq must_report [] = []"
| "report_publs sub sseq must_report (crs # rest) =
     Report_overlap sub (ss_lower sseq) (ss_upper sseq) TIPC_PUBLISHED
       (p_port crs) (p_node crs) (p_scope crs) must_report
     # report_publs sub sseq False rest"

text \<open>Its outer loop, over the slots from \<^verbatim>\<open>sseqs\<close> up to \<^verbatim>\<open>&sseqs[first_free]\<close>.\<close>

fun subscribe_scan :: "tipc_subscription \<Rightarrow> tipc_name_seq \<Rightarrow> sub_seq list \<Rightarrow> report list" where
  "subscribe_scan sub ns [] = []"
| "subscribe_scan sub ns (sseq # rest) =
     (if tipc_sub_check_overlap ns (ss_lower sseq) (ss_upper sseq)
      then report_publs sub sseq True (all_publ (info sseq)) else [])
     @ subscribe_scan sub ns rest"

text \<open>
  \<^verbatim>\<open>tipc_nameseq_subscribe\<close>.  The array pointer \<^verbatim>\<open>nseq->sseqs\<close> of a name sequence is
  never NULL, so the test \<^verbatim>\<open>!sseq\<close> is false.  The reference count that \<^verbatim>\<open>tipc_sub_get\<close>
  raises is not modelled.
\<close>

definition tipc_nameseq_subscribe ::
  "tipc_net \<Rightarrow> name_seq \<Rightarrow> tipc_subscription \<Rightarrow> report list \<times> name_seq" where
  "tipc_nameseq_subscribe net nseq sub =
     (let ns = \<lparr>tns_type = s_type sub, tns_lower = s_lower sub, tns_upper = s_upper sub\<rparr>;
          no_status = (s_filter sub AND TIPC_SUB_NO_STATUS net \<noteq> 0);
          nseq' = nseq\<lparr>subscriptions := list_add sub (subscriptions nseq)\<rparr>
      in if no_status then ([], nseq')
         else (subscribe_scan sub ns (take (first_free nseq) (sseqs nseq)), nseq'))"

subsection \<open>The name table\<close>

definition nametbl_find_seq :: "name_table \<Rightarrow> u32 \<Rightarrow> name_seq option" where
  "nametbl_find_seq tbl type = find (\<lambda>ns. ns_type ns = type) (seq_hlist tbl (hash type))"

text \<open>
  The C code changes the name sequence that \<^verbatim>\<open>nametbl_find_seq\<close> returned through the
  pointer.  \<open>nametbl_store\<close> writes the changed sequence back to where
  \<^verbatim>\<open>nametbl_find_seq\<close> finds it: the first sequence of its type in its hash chain.
\<close>

fun hlist_store :: "name_seq \<Rightarrow> name_seq list \<Rightarrow> name_seq list" where
  "hlist_store seq [] = []"
| "hlist_store seq (ns # rest) =
     (if ns_type ns = ns_type seq then seq # rest else ns # hlist_store seq rest)"

definition nametbl_store :: "name_table \<Rightarrow> name_seq \<Rightarrow> name_table" where
  "nametbl_store tbl seq =
     tbl\<lparr>seq_hlist := (seq_hlist tbl)
            (hash (ns_type seq) := hlist_store seq (seq_hlist tbl (hash (ns_type seq))))\<rparr>"

text \<open>\<^verbatim>\<open>hlist_del_init_rcu(&seq->ns_list)\<close> for that sequence.\<close>

fun hlist_del :: "u32 \<Rightarrow> name_seq list \<Rightarrow> name_seq list" where
  "hlist_del type [] = []"
| "hlist_del type (ns # rest) = (if ns_type ns = type then rest else ns # hlist_del type rest)"

definition nametbl_unlink :: "name_table \<Rightarrow> u32 \<Rightarrow> name_table" where
  "nametbl_unlink tbl type =
     tbl\<lparr>seq_hlist := (seq_hlist tbl)(hash type := hlist_del type (seq_hlist tbl (hash type)))\<rparr>"

text \<open>\<^verbatim>\<open>tipc_nametbl_init\<close>: every hash chain is empty.\<close>

definition tipc_nametbl_init :: name_table where
  "tipc_nametbl_init = \<lparr>seq_hlist = (\<lambda>i. [])\<rparr>"

text \<open>\<^verbatim>\<open>tipc_nametbl_insert_publ\<close>, the publish of the specification.\<close>

definition tipc_nametbl_insert_publ ::
  "tipc_net \<Rightarrow> name_table \<Rightarrow> u32 \<Rightarrow> u32 \<Rightarrow> u32 \<Rightarrow> u32 \<Rightarrow> u32 \<Rightarrow> u32 \<Rightarrow> u32 \<Rightarrow> kmem
     \<Rightarrow> publication option \<times> report list \<times> name_table \<times> kmem" where
  "tipc_nametbl_insert_publ net tbl type lower upper scope node port key m =
     (let seq = nametbl_find_seq tbl type; index = hash type in
      if scope > TIPC_NODE_SCOPE net \<or> lower > upper then (None, [], tbl, m)
      else
        (case (case seq of
                 Some found \<Rightarrow> (Some found, tbl, m)
               | None \<Rightarrow>
                   (case tipc_nameseq_create type (seq_hlist tbl index) m of
                      (created, chain, m1) \<Rightarrow>
                        (created, tbl\<lparr>seq_hlist := (seq_hlist tbl)(index := chain)\<rparr>, m1)))
         of (seq1, tbl1, m1) \<Rightarrow>
           (case seq1 of
              None \<Rightarrow> (None, [], tbl1, m1)
            | Some nseq \<Rightarrow>
                (case tipc_nameseq_insert_publ net nseq type lower upper scope node port key m1
                 of (publ, reports, nseq', m2) \<Rightarrow>
                   (publ, reports, nametbl_store tbl1 nseq', m2)))))"

text \<open>\<^verbatim>\<open>tipc_nametbl_remove_publ\<close>, the withdraw of the specification.\<close>

definition tipc_nametbl_remove_publ ::
  "tipc_net \<Rightarrow> name_table \<Rightarrow> u32 \<Rightarrow> u32 \<Rightarrow> u32 \<Rightarrow> u32 \<Rightarrow> u32
     \<Rightarrow> fault + (publication option \<times> report list \<times> name_table)" where
  "tipc_nametbl_remove_publ net tbl type lower node port key =
     (case nametbl_find_seq tbl type of
        None \<Rightarrow> Inr (None, [], tbl)
      | Some seq \<Rightarrow>
          (case tipc_nameseq_remove_publ net seq lower node port key of
             Inl f \<Rightarrow> Inl f
           | Inr (publ, reports, seq') \<Rightarrow>
               if first_free seq' = 0 \<and> subscriptions seq' = []
               then Inr (publ, reports, nametbl_unlink tbl type)
               else Inr (publ, reports, nametbl_store tbl seq')))"

subsection \<open>Translation\<close>

text \<open>
  The selection of \<^verbatim>\<open>tipc_nametbl_translate\<close> (lines 523 to 551) in the \<^verbatim>\<open>name_info\<close> of
  the sub-sequence found: \<open>Inr None\<close> is the jump to \<^verbatim>\<open>no_match\<close>, \<open>Inr (Some (publ, ninfo'))\<close>
  the publication chosen with the lists after \<^verbatim>\<open>list_move_tail\<close>.
\<close>

definition select_local :: "name_info \<Rightarrow> fault + (publication \<times> name_info) option" where
  "select_local ninfo =
     (case list_first_entry (local_publ ninfo) of
        Inl f \<Rightarrow> Inl f
      | Inr publ \<Rightarrow> Inr (Some (publ, ninfo\<lparr>local_publ := list_move_tail publ (local_publ ninfo)\<rparr>)))"

definition select_all :: "name_info \<Rightarrow> fault + (publication \<times> name_info) option" where
  "select_all ninfo =
     (case list_first_entry (all_publ ninfo) of
        Inl f \<Rightarrow> Inl f
      | Inr publ \<Rightarrow> Inr (Some (publ, ninfo\<lparr>all_publ := list_move_tail publ (all_publ ninfo)\<rparr>)))"

definition translate_select ::
  "tipc_net \<Rightarrow> name_info \<Rightarrow> u32 \<Rightarrow> fault + (publication \<times> name_info) option" where
  "translate_select net ninfo destnode =
     (if destnode = 0 then
        (if local_publ ninfo \<noteq> [] then select_local ninfo else select_all ninfo)
      else if destnode = own_addr net then
        (if local_publ ninfo = [] then Inr None else select_local ninfo)
      else select_all ninfo)"

text \<open>
  \<^verbatim>\<open>tipc_nametbl_translate\<close>: the port returned, the value left in \<^verbatim>\<open>*destnode\<close>, and the
  table.
\<close>

definition tipc_nametbl_translate ::
  "tipc_net \<Rightarrow> name_table \<Rightarrow> u32 \<Rightarrow> u32 \<Rightarrow> u32 \<Rightarrow> fault + (u32 \<times> u32 \<times> name_table)" where
  "tipc_nametbl_translate net tbl type inst destnode =
     (if \<not> tipc_in_scope net destnode (own_addr net) then Inr (0, destnode, tbl)
      else
        (case nametbl_find_seq tbl type of
           None \<Rightarrow> Inr (0, 0, tbl)
         | Some seq \<Rightarrow>
             (case nameseq_find_subseq seq inst of
                None \<Rightarrow> Inr (0, 0, tbl)
              | Some i \<Rightarrow>
                  (let sseq = sseqs seq ! i in
                   case translate_select net (info sseq) destnode of
                     Inl f \<Rightarrow> Inl f
                   | Inr None \<Rightarrow> Inr (0, 0, tbl)
                   | Inr (Some (publ, ninfo')) \<Rightarrow>
                       Inr (p_port publ, p_node publ,
                            nametbl_store tbl
                              (seq\<lparr>sseqs := (sseqs seq)[i := sseq\<lparr>info := ninfo'\<rparr>]\<rparr>))))))"

subsection \<open>Lookup\<close>

text \<open>
  A destination list holds the values \<^verbatim>\<open>(u64)node << 32 | port\<close> of its entries
  (\<^verbatim>\<open>struct tipc_dest\<close>).
\<close>

definition dest_value :: "u32 \<Rightarrow> u32 \<Rightarrow> u64" where
  "dest_value node port = push_bit 32 (ucast node) OR ucast port"

definition tipc_dest_find :: "u64 list \<Rightarrow> u32 \<Rightarrow> u32 \<Rightarrow> u64 option" where
  "tipc_dest_find l node port = find (\<lambda>dst. dst = dest_value node port) l"

definition tipc_dest_push :: "u64 list \<Rightarrow> u32 \<Rightarrow> u32 \<Rightarrow> kmem \<Rightarrow> bool \<times> u64 list \<times> kmem" where
  "tipc_dest_push l node port m =
     (if tipc_dest_find l node port \<noteq> None then (False, l, m)
      else
        (case kmalloc m of (ok, m') \<Rightarrow>
           if \<not> ok then (False, l, m')
           else (True, list_add (dest_value node port) l, m')))"

text \<open>
  The loop of \<^verbatim>\<open>tipc_nametbl_lookup\<close> over \<^verbatim>\<open>all_publ\<close>: the publication at which it
  stopped with \<^verbatim>\<open>break\<close> (\<open>None\<close> when it ran to the end), the destinations, the count
  and the allocations left.
\<close>

fun lookup_scan ::
  "u32 \<Rightarrow> u32 \<Rightarrow> u32 \<Rightarrow> bool \<Rightarrow> publication list \<Rightarrow> u64 list \<Rightarrow> int \<Rightarrow> kmem
     \<Rightarrow> publication option \<times> u64 list \<times> int \<times> kmem" where
  "lookup_scan self scope exclude all [] dsts dstcnt m = (None, dsts, dstcnt, m)"
| "lookup_scan self scope exclude all (publ # rest) dsts dstcnt m =
     (if p_scope publ \<noteq> scope then lookup_scan self scope exclude all rest dsts dstcnt m
      else if p_port publ = exclude \<and> p_node publ = self
      then lookup_scan self scope exclude all rest dsts dstcnt m
      else
        (case tipc_dest_push dsts (p_node publ) (p_port publ) m of (pushed, dsts', m') \<Rightarrow>
           if all then lookup_scan self scope exclude all rest dsts' (dstcnt + 1) m'
           else (Some publ, dsts', dstcnt + 1, m')))"

text \<open>
  \<^verbatim>\<open>tipc_nametbl_lookup\<close>: the value returned, the list \<^verbatim>\<open>dsts\<close>, \<^verbatim>\<open>*dstcnt\<close>, the table and
  the allocations left.
\<close>

definition tipc_nametbl_lookup ::
  "tipc_net \<Rightarrow> name_table \<Rightarrow> u32 \<Rightarrow> u32 \<Rightarrow> u32 \<Rightarrow> u64 list \<Rightarrow> u32 \<Rightarrow> bool \<Rightarrow> kmem
     \<Rightarrow> bool \<times> u64 list \<times> int \<times> name_table \<times> kmem" where
  "tipc_nametbl_lookup net tbl type inst scope dsts exclude all m =
     (let self = own_addr net in
      case nametbl_find_seq tbl type of
        None \<Rightarrow> (dsts \<noteq> [], dsts, 0, tbl, m)
      | Some seq \<Rightarrow>
          (case nameseq_find_subseq seq inst of
             None \<Rightarrow> (dsts \<noteq> [], dsts, 0, tbl, m)
           | Some i \<Rightarrow>
               (let sseq = sseqs seq ! i; ninfo = info sseq in
                case lookup_scan self scope exclude all (all_publ ninfo) dsts 0 m of
                  (stopped, dsts', dstcnt, m') \<Rightarrow>
                    (case stopped of
                       None \<Rightarrow> (dsts' \<noteq> [], dsts', dstcnt, tbl, m')
                     | Some publ \<Rightarrow>
                         (dsts' \<noteq> [], dsts', dstcnt,
                          nametbl_store tbl
                            (seq\<lparr>sseqs := (sseqs seq)[i := sseq\<lparr>info :=
                               ninfo\<lparr>all_publ := list_move_tail publ (all_publ ninfo)\<rparr>\<rparr>]\<rparr>),
                          m')))))"

section \<open>Properties of the name table\<close>

text \<open>
  The definitions the theorems below are stated with: the invariant of a name sequence,
  the conflicts of a publication, the reports expected, and the concrete states the
  theorems are tried on.
\<close>

text \<open>The slots in use: the first \<open>first_free\<close> slots of the array.\<close>

definition live :: "name_seq \<Rightarrow> sub_seq list" where
  "live nseq = take (first_free nseq) (sseqs nseq)"

text \<open>The range of a sub-sequence contains an instance.\<close>

definition contains :: "sub_seq \<Rightarrow> u32 \<Rightarrow> bool" where
  "contains sseq inst = (ss_lower sseq \<le> inst \<and> inst \<le> ss_upper sseq)"

text \<open>
  Every range is a range (\<open>lower \<le> upper\<close>), and each range lies below all the ranges
  that follow it: the slots are sorted and their ranges are disjoint.
\<close>

definition ranges_ok :: "sub_seq list \<Rightarrow> bool" where
  "ranges_ok xs =
     (list_all (\<lambda>s. ss_lower s \<le> ss_upper s) xs \<and>
      sorted_wrt (\<lambda>a b. ss_upper a < ss_lower b) xs)"

text \<open>
  The loop invariant of both binary searches on the first \<open>n\<close> slots of the array \<open>a\<close>:
  the slots below \<open>low\<close> lie below the instance, the slots above \<open>high\<close> lie above it.
\<close>

definition bracket :: "sub_seq list \<Rightarrow> nat \<Rightarrow> u32 \<Rightarrow> int \<Rightarrow> int \<Rightarrow> bool" where
  "bracket a n x low high =
     (0 \<le> low \<and> high < int n \<and> low \<le> high + 1 \<and>
      (\<forall>k<n. int k < low \<longrightarrow> ss_upper (a ! k) < x) \<and>
      (\<forall>k<n. high < int k \<longrightarrow> x < ss_lower (a ! k)))"

text \<open>The array has \<open>alloc\<close> slots, at least one, and \<open>first_free\<close> does not pass them.\<close>

definition array_ok :: "name_seq \<Rightarrow> bool" where
  "array_ok nseq =
     (0 < alloc nseq \<and> first_free nseq \<le> alloc nseq \<and> length (sseqs nseq) = alloc nseq)"

text \<open>
  A well-formed name sequence: the array is in order and the ranges of the slots in use
  are sorted and disjoint.
\<close>

definition nameseq_wf :: "name_seq \<Rightarrow> bool" where
  "nameseq_wf nseq = (array_ok nseq \<and> ranges_ok (live nseq))"

text \<open>
  The lowest index whose sub-sequence has a lower bound above the instance, or the number
  of slots when there is none: where a range that starts at the instance keeps the array
  sorted.
\<close>

definition insertion_index :: "sub_seq list \<Rightarrow> u32 \<Rightarrow> nat" where
  "insertion_index xs inst = length (takeWhile (\<lambda>s. ss_lower s \<le> inst) xs)"

text \<open>
  The index in the words of section 4.1 of the specification: the lowest index, in scan
  order, whose sub-sequence satisfies \<^verbatim>\<open>sseq.lower <= instance\<close>, else the array length.
\<close>

definition spec_insertion_index :: "sub_seq list \<Rightarrow> u32 \<Rightarrow> nat" where
  "spec_insertion_index xs inst = length (takeWhile (\<lambda>s. \<not> ss_lower s \<le> inst) xs)"

text \<open>A name sequence with the ranges \<open>[1, 2]\<close> and \<open>[5, 6]\<close>.\<close>

definition locate_example :: name_seq where
  "locate_example =
     \<lparr>ns_type = 10,
      sseqs = [\<lparr>ss_lower = 1, ss_upper = 2, info = empty_info\<rparr>,
               \<lparr>ss_lower = 5, ss_upper = 6, info = empty_info\<rparr>],
      alloc = 2, first_free = 2, subscriptions = []\<rparr>"

text \<open>
  The sub-sequence with a publication put in front of its lists: in front of \<open>all_publ\<close>,
  and in front of \<open>local_publ\<close> when the publication's node is this node.
\<close>

definition add_publ :: "tipc_net \<Rightarrow> publication \<Rightarrow> sub_seq \<Rightarrow> sub_seq" where
  "add_publ net publ sseq =
     (if in_own_node net (p_node publ)
      then sseq\<lparr>info := (info sseq)\<lparr>all_publ := publ # all_publ (info sseq),
                                     local_publ := publ # local_publ (info sseq)\<rparr>\<rparr>
      else sseq\<lparr>info := (info sseq)\<lparr>all_publ := publ # all_publ (info sseq)\<rparr>\<rparr>)"

text \<open>The reports of a publication to the subscriptions of its name sequence.\<close>

definition published_reports :: "publication \<Rightarrow> bool \<Rightarrow> tipc_subscription list \<Rightarrow> report list" where
  "published_reports publ created subs =
     map (\<lambda>s. Report_overlap s (p_lower publ) (p_upper publ) TIPC_PUBLISHED
                 (p_port publ) (p_node publ) (p_scope publ) created) subs"

text \<open>
  The invariant of a name sequence: it is well-formed and every slot in use holds a
  publication.
\<close>

definition nameseq_inv :: "name_seq \<Rightarrow> bool" where
  "nameseq_inv nseq =
     (nameseq_wf nseq \<and> list_all (\<lambda>s. all_publ (info s) \<noteq> []) (live nseq))"

text \<open>The publication \<^verbatim>\<open>publ_create\<close> writes.\<close>

definition new_publ :: "u32 \<Rightarrow> u32 \<Rightarrow> u32 \<Rightarrow> u32 \<Rightarrow> u32 \<Rightarrow> u32 \<Rightarrow> u32 \<Rightarrow> publication" where
  "new_publ type lower upper scope node port key =
     \<lparr>p_type = type, p_lower = lower, p_upper = upper, p_scope = scope,
      p_node = node, p_port = port, p_key = key\<rparr>"

text \<open>The slot the insert writes for a new range, before the publication is added.\<close>

definition new_sub_seq :: "u32 \<Rightarrow> u32 \<Rightarrow> sub_seq" where
  "new_sub_seq lower upper = \<lparr>ss_lower = lower, ss_upper = upper, info = empty_info\<rparr>"

text \<open>
  The duplicate test of the insert: the sub-sequence holds a publication of the same port
  and key whose node is zero or the new node.
\<close>

definition duplicate :: "sub_seq \<Rightarrow> u32 \<Rightarrow> u32 \<Rightarrow> u32 \<Rightarrow> bool" where
  "duplicate sseq node port key =
     list_ex (\<lambda>publ. p_port publ = port \<and> p_key publ = key \<and>
                      (p_node publ = 0 \<or> p_node publ = node)) (all_publ (info sseq))"

text \<open>The reports of a withdrawn publication to the subscriptions of its name sequence.\<close>

definition withdrawn_reports :: "publication \<Rightarrow> bool \<Rightarrow> tipc_subscription list \<Rightarrow> report list" where
  "withdrawn_reports publ removed subs =
     map (\<lambda>s. Report_overlap s (p_lower publ) (p_upper publ) TIPC_WITHDRAWN
                 (p_port publ) (p_node publ) (p_scope publ) removed) subs"

text \<open>The test with which the remove looks for its publication.\<close>

definition matches :: "publication \<Rightarrow> u32 \<Rightarrow> u32 \<Rightarrow> u32 \<Rightarrow> bool" where
  "matches publ node port key =
     (p_key publ = key \<and> p_port publ = port \<and> (p_node publ = 0 \<or> p_node publ = node))"

text \<open>Two ranges have no instance in common.\<close>

definition disjoint :: "sub_seq \<Rightarrow> sub_seq \<Rightarrow> bool" where
  "disjoint a b = (ss_upper a < ss_lower b \<or> ss_upper b < ss_lower a)"

text \<open>
  The invariant in the words of the specification: the slots in use are sorted strictly
  ascending by \<open>lower\<close>, their ranges are pairwise disjoint, and the list \<open>all_publ\<close> of
  each is not empty.  To that: the array is in order and every range has
  \<open>lower \<le> upper\<close>.
\<close>

definition nameseq_invariant :: "name_seq \<Rightarrow> bool" where
  "nameseq_invariant nseq =
     (array_ok nseq \<and>
      list_all (\<lambda>s. ss_lower s \<le> ss_upper s) (live nseq) \<and>
      sorted_wrt (\<lambda>a b. ss_lower a < ss_lower b) (live nseq) \<and>
      sorted_wrt disjoint (live nseq) \<and>
      list_all (\<lambda>s. all_publ (info s) \<noteq> []) (live nseq))"

text \<open>
  A node for the examples: address 1.1.1, scopes up to 3, the address tests as a node
  with that address has them.
\<close>

definition example_net :: tipc_net where
  "example_net =
     \<lparr>own_addr = 0x1001001, TIPC_NODE_SCOPE = 3, TIPC_SUB_NO_STATUS = 0x20,
      in_own_node = (\<lambda>addr. addr = 0x1001001 \<or> addr = 0),
      tipc_in_scope = (\<lambda>domain addr. domain = 0 \<or> domain = addr)\<rparr>"

text \<open>A subscription to the instances 0 to 100 of type 10.\<close>

definition example_sub :: tipc_subscription where
  "example_sub = \<lparr>s_type = 10, s_lower = 0, s_upper = 100, s_filter = 0\<rparr>"

text \<open>A publication of this node: type 10, range \<open>[5, 5]\<close>, port 100, key 1.\<close>

definition publ_a :: publication where
  "publ_a = new_publ 10 5 5 3 0x1001001 100 1"

text \<open>The name sequence of type 10 as \<^verbatim>\<open>tipc_nameseq_create\<close> makes it, with a subscription.\<close>

definition seq_empty :: name_seq where
  "seq_empty = \<lparr>ns_type = 10, sseqs = [zero_sub_seq], alloc = 1, first_free = 0,
                 subscriptions = [example_sub]\<rparr>"

text \<open>The same name sequence holding \<open>publ_a\<close>.\<close>

definition seq_one :: name_seq where
  "seq_one =
     \<lparr>ns_type = 10,
      sseqs = [\<lparr>ss_lower = 5, ss_upper = 5,
                info = \<lparr>local_publ = [publ_a], all_publ = [publ_a]\<rparr>\<rparr>],
      alloc = 1, first_free = 1, subscriptions = [example_sub]\<rparr>"

text \<open>
  The name sequence of type 10 with the slot \<open>[5, 5]\<close> in use and no publication in it.
\<close>

definition seq_unfilled :: name_seq where
  "seq_unfilled =
     \<lparr>ns_type = 10, sseqs = [new_sub_seq 5 5], alloc = 1, first_free = 1,
      subscriptions = [example_sub]\<rparr>"

text \<open>
  The reports a new subscription expects for one sub-sequence: a PUBLISHED report for
  each publication of \<open>all_publ\<close> in the order of the list, the flag true in the first and
  false in every later one.
\<close>

definition snapshot_reports :: "tipc_subscription \<Rightarrow> sub_seq \<Rightarrow> report list" where
  "snapshot_reports sub sseq =
     (case all_publ (info sseq) of
        [] \<Rightarrow> []
      | first # later \<Rightarrow>
          Report_overlap sub (ss_lower sseq) (ss_upper sseq) TIPC_PUBLISHED
            (p_port first) (p_node first) (p_scope first) True
          # map (\<lambda>crs. Report_overlap sub (ss_lower sseq) (ss_upper sseq) TIPC_PUBLISHED
                          (p_port crs) (p_node crs) (p_scope crs) False) later)"

text \<open>The range a subscription asks for.\<close>

definition sub_range :: "tipc_subscription \<Rightarrow> tipc_name_seq" where
  "sub_range sub = \<lparr>tns_type = s_type sub, tns_lower = s_lower sub, tns_upper = s_upper sub\<rparr>"

text \<open>A second publication of the range \<open>[5, 5]\<close> of type 10, from another node.\<close>

definition publ_b :: publication where
  "publ_b = new_publ 10 5 5 3 0x1001002 200 2"

text \<open>The name sequence of type 10 holding \<open>publ_b\<close> and \<open>publ_a\<close> in one sub-sequence.\<close>

definition seq_two :: name_seq where
  "seq_two =
     \<lparr>ns_type = 10,
      sseqs = [\<lparr>ss_lower = 5, ss_upper = 5,
                info = \<lparr>local_publ = [publ_a], all_publ = [publ_b, publ_a]\<rparr>\<rparr>],
      alloc = 1, first_free = 1, subscriptions = []\<rparr>"

text \<open>
  The publications the lookup accepts: the scope is the one asked for, and the publication
  is not the caller's own (the excluded port on this node).
\<close>

definition acceptable :: "u32 \<Rightarrow> u32 \<Rightarrow> u32 \<Rightarrow> publication \<Rightarrow> bool" where
  "acceptable self scope exclude publ =
     (p_scope publ = scope \<and> \<not> (p_port publ = exclude \<and> p_node publ = self))"

text \<open>The parts of the result of \<open>tipc_nametbl_lookup\<close>.\<close>

definition lookup_dsts ::
  "bool \<times> u64 list \<times> int \<times> name_table \<times> kmem \<Rightarrow> u64 list" where
  "lookup_dsts r = fst (snd r)"

definition lookup_dstcnt ::
  "bool \<times> u64 list \<times> int \<times> name_table \<times> kmem \<Rightarrow> int" where
  "lookup_dstcnt r = fst (snd (snd r))"


text \<open>The name table that holds one name sequence.\<close>

definition table_of :: "name_seq \<Rightarrow> name_table" where
  "table_of seq = \<lparr>seq_hlist = (\<lambda>i. [])(hash (ns_type seq) := [seq])\<rparr>"

text \<open>
  Two publications of one socket of another node, port 200, with the keys 2 and 3, in
  one sub-sequence.
\<close>

definition seq_same_port :: name_seq where
  "seq_same_port =
     \<lparr>ns_type = 10,
      sseqs = [\<lparr>ss_lower = 5, ss_upper = 5,
                info = \<lparr>local_publ = [],
                        all_publ = [new_publ 10 5 5 3 0x1001002 200 3, publ_b]\<rparr>\<rparr>],
      alloc = 1, first_free = 1, subscriptions = []\<rparr>"

text \<open>
  The name sequence of a type with one sub-sequence \<open>[lower, upper]\<close> in an array of one
  slot, holding the lists \<open>loc\<close> and \<open>all\<close>, and no subscription.
\<close>

definition range_seq ::
  "u32 \<Rightarrow> u32 \<Rightarrow> u32 \<Rightarrow> publication list \<Rightarrow> publication list \<Rightarrow> name_seq" where
  "range_seq type lower upper loc all =
     \<lparr>ns_type = type,
      sseqs = [\<lparr>ss_lower = lower, ss_upper = upper,
                info = \<lparr>local_publ = loc, all_publ = all\<rparr>\<rparr>],
      alloc = 1, first_free = 1, subscriptions = []\<rparr>"

text \<open>The name sequence \<^verbatim>\<open>tipc_nameseq_create\<close> makes.\<close>

definition fresh_seq :: "u32 \<Rightarrow> name_seq" where
  "fresh_seq type =
     \<lparr>ns_type = type, sseqs = [zero_sub_seq], alloc = 1, first_free = 0, subscriptions = []\<rparr>"

text \<open>The range \<open>[lower, upper]\<close> has an instance in common with the range of a sub-sequence.\<close>

definition overlaps :: "sub_seq \<Rightarrow> u32 \<Rightarrow> u32 \<Rightarrow> bool" where
  "overlaps sseq lower upper = (lower \<le> ss_upper sseq \<and> ss_lower sseq \<le> upper)"

text \<open>The range of a sub-sequence is \<open>[lower, upper]\<close>: same lower and same upper.\<close>

definition exact :: "sub_seq \<Rightarrow> u32 \<Rightarrow> u32 \<Rightarrow> bool" where
  "exact sseq lower upper = (ss_lower sseq = lower \<and> ss_upper sseq = upper)"

text \<open>The new range overlaps a sub-sequence in use without matching it exactly.\<close>

definition range_conflict :: "name_seq \<Rightarrow> u32 \<Rightarrow> u32 \<Rightarrow> bool" where
  "range_conflict nseq lower upper =
     list_ex (\<lambda>s. overlaps s lower upper \<and> \<not> exact s lower upper) (live nseq)"

text \<open>
  A sub-sequence in use of exactly the new range holds a publication of the same port
  and key whose node is the new node or zero.
\<close>

definition duplicate_conflict :: "name_seq \<Rightarrow> u32 \<Rightarrow> u32 \<Rightarrow> u32 \<Rightarrow> u32 \<Rightarrow> u32 \<Rightarrow> bool" where
  "duplicate_conflict nseq lower upper node port key =
     list_ex (\<lambda>s. exact s lower upper \<and> duplicate s node port key) (live nseq)"

text \<open>The two conflicts, in the name sequence of the type, if the table has one.\<close>

definition publish_conflict ::
  "name_table \<Rightarrow> u32 \<Rightarrow> u32 \<Rightarrow> u32 \<Rightarrow> u32 \<Rightarrow> u32 \<Rightarrow> u32 \<Rightarrow> bool" where
  "publish_conflict tbl type lower upper node port key =
     (case nametbl_find_seq tbl type of
        None \<Rightarrow> False
      | Some seq \<Rightarrow> range_conflict seq lower upper \<or>
                    duplicate_conflict seq lower upper node port key)"

text \<open>The name sequence of the type, if the table has one, is well-formed.\<close>

definition wf_at :: "name_table \<Rightarrow> u32 \<Rightarrow> bool" where
  "wf_at tbl type =
     (case nametbl_find_seq tbl type of None \<Rightarrow> True | Some seq \<Rightarrow> nameseq_wf seq)"

text \<open>A binding to publish: node, port and key.\<close>

type_synonym binding = "u32 \<times> u32 \<times> u32"



text \<open>The publication of a binding, and the destination a publication is looked up as.\<close>

definition binding_publ :: "u32 \<Rightarrow> u32 \<Rightarrow> u32 \<Rightarrow> u32 \<Rightarrow> binding \<Rightarrow> publication" where
  "binding_publ type lower upper scope b =
     (case b of (node, port, key) \<Rightarrow> new_publ type lower upper scope node port key)"


text \<open>
  The list \<open>all_publ\<close> after the bindings are published: \<^verbatim>\<open>list_add\<close> puts each in front,
  so the last published comes first.
\<close>

definition published :: "u32 \<Rightarrow> u32 \<Rightarrow> u32 \<Rightarrow> u32 \<Rightarrow> binding list \<Rightarrow> publication list" where
  "published type lower upper scope bs = rev (map (binding_publ type lower upper scope) bs)"

text \<open>The port and key of a binding and of a publication.\<close>

definition binding_port_key :: "binding \<Rightarrow> u32 \<times> u32" where
  "binding_port_key b = (case b of (node, port, key) \<Rightarrow> (port, key))"

definition publ_port_key :: "publication \<Rightarrow> u32 \<times> u32" where
  "publ_port_key p = (p_port p, p_key p)"






text \<open>
  The lists of a sub-sequence hold no publication twice, and \<open>local_publ\<close> holds
  publications of \<open>all_publ\<close> only, all of them of this node.  In a sub-sequence with this
  property a list has one entry with the value of a publication, the entry the code holds
  the pointer to.
\<close>

definition lists_ok :: "tipc_net \<Rightarrow> sub_seq \<Rightarrow> bool" where
  "lists_ok net s =
     (distinct (all_publ (info s)) \<and> distinct (local_publ (info s)) \<and>
      list_all (\<lambda>p. p \<in> set (all_publ (info s)) \<and> in_own_node net (p_node p))
        (local_publ (info s)))"

text \<open>Every sub-sequence in use of the name sequence has the property.\<close>

definition nameseq_lists_ok :: "tipc_net \<Rightarrow> name_seq \<Rightarrow> bool" where
  "nameseq_lists_ok net nseq = list_all (lists_ok net) (live nseq)"


section \<open>Proofs\<close>

subsection \<open>The binary searches\<close>

declare find_subseq_loop.simps [simp del]

declare locate_subseq_loop.simps [simp del]

lemma ranges_ok_nth_less:
  assumes "ranges_ok (take n a)" "n \<le> length a" "i < j" "j < n"
  shows "ss_upper (a ! i) < ss_lower (a ! j)"
proof -
  have "sorted_wrt (\<lambda>a b. ss_upper a < ss_lower b) (take n a)"
    using assms(1) by (simp add: ranges_ok_def)
  moreover have "i < j" "j < length (take n a)" using assms by simp_all
  ultimately have "ss_upper (take n a ! i) < ss_lower (take n a ! j)"
    by (rule sorted_wrt_nth_less)
  then show ?thesis using assms by simp
qed

lemma ranges_ok_nth_le:
  assumes "ranges_ok (take n a)" "n \<le> length a" "i < n"
  shows "ss_lower (a ! i) \<le> ss_upper (a ! i)"
proof -
  have "list_all (\<lambda>s. ss_lower s \<le> ss_upper s) (take n a)"
    using assms(1) by (simp add: ranges_ok_def)
  moreover have "i < length (take n a)" using assms by simp
  ultimately have "ss_lower (take n a ! i) \<le> ss_upper (take n a ! i)"
    by (simp add: list_all_length)
  then show ?thesis using assms by simp
qed

lemma find_subseq_loop_unfold:
  "find_subseq_loop a x low high =
     (if low \<le> high then
        (if x < ss_lower (a ! nat ((low + high) div 2))
         then find_subseq_loop a x low ((low + high) div 2 - 1)
         else if x > ss_upper (a ! nat ((low + high) div 2))
         then find_subseq_loop a x ((low + high) div 2 + 1) high
         else Some (nat ((low + high) div 2)))
      else None)"
  by (subst find_subseq_loop.simps) (simp add: Let_def)

lemma locate_subseq_loop_unfold:
  "locate_subseq_loop a x low high =
     (if low \<le> high then
        (if x < ss_lower (a ! nat ((low + high) div 2))
         then locate_subseq_loop a x low ((low + high) div 2 - 1)
         else if x > ss_upper (a ! nat ((low + high) div 2))
         then locate_subseq_loop a x ((low + high) div 2 + 1) high
         else nat ((low + high) div 2))
      else nat low)"
  by (subst locate_subseq_loop.simps) (simp add: Let_def)

lemma find_loop_Some:
  "find_subseq_loop a x low high = Some i \<Longrightarrow> 0 \<le> low \<Longrightarrow>
     low \<le> int i \<and> int i \<le> high \<and> contains (a ! i) x"
proof (induction "nat (high - low + 1)" arbitrary: low high rule: less_induct)
  case less
  define mid where "mid = (low + high) div 2"
  have le: "low \<le> high"
    using less.prems(1) by (subst (asm) find_subseq_loop_unfold) (simp split: if_splits)
  have mid: "low \<le> mid" "mid \<le> high" using le by (simp_all add: mid_def)
  consider (below) "x < ss_lower (a ! nat mid)"
    | (above) "\<not> x < ss_lower (a ! nat mid)" "x > ss_upper (a ! nat mid)"
    | (hit) "\<not> x < ss_lower (a ! nat mid)" "\<not> x > ss_upper (a ! nat mid)"
    by blast
  then show ?case
  proof cases
    case below
    then have "find_subseq_loop a x low (mid - 1) = Some i"
      using less.prems(1) le by (subst (asm) find_subseq_loop_unfold) (simp add: mid_def)
    moreover have "nat (mid - 1 - low + 1) < nat (high - low + 1)" using mid by simp
    ultimately have "low \<le> int i \<and> int i \<le> mid - 1 \<and> contains (a ! i) x"
      using less.hyps less.prems(2) by blast
    then show ?thesis using mid by simp
  next
    case above
    then have "find_subseq_loop a x (mid + 1) high = Some i"
      using less.prems(1) le by (subst (asm) find_subseq_loop_unfold) (simp add: mid_def)
    moreover have "nat (high - (mid + 1) + 1) < nat (high - low + 1)" using mid by simp
    moreover have "0 \<le> mid + 1" using mid less.prems(2) by simp
    ultimately have "mid + 1 \<le> int i \<and> int i \<le> high \<and> contains (a ! i) x"
      using less.hyps by blast
    then show ?thesis using mid by simp
  next
    case hit
    then have "i = nat mid"
      using less.prems(1) le by (subst (asm) find_subseq_loop_unfold) (simp add: mid_def)
    then show ?thesis using mid less.prems(2) hit by (simp add: contains_def not_less)
  qed
qed

lemma bracket_init: "bracket a n x 0 (int n - 1)"
  by (simp add: bracket_def)

lemma bracket_below:
  assumes "ranges_ok (take n a)" "n \<le> length a" "bracket a n x low high" "low \<le> high"
    "x < ss_lower (a ! nat ((low + high) div 2))"
  shows "bracket a n x low ((low + high) div 2 - 1)"
proof -
  define mid where "mid = (low + high) div 2"
  have mid: "low \<le> mid" "mid \<le> high" using assms(4) by (simp_all add: mid_def)
  have b: "0 \<le> low" "high < int n"
    "\<And>k. k < n \<Longrightarrow> int k < low \<Longrightarrow> ss_upper (a ! k) < x"
    "\<And>k. k < n \<Longrightarrow> high < int k \<Longrightarrow> x < ss_lower (a ! k)"
    using assms(3) by (auto simp: bracket_def)
  have "x < ss_lower (a ! k)" if "k < n" "mid - 1 < int k" for k
  proof (cases "int k = mid")
    case True
    then have "k = nat mid" by simp
    then show ?thesis using assms(5) by (simp add: mid_def)
  next
    case False
    then have lt: "nat mid < k" using that(2) mid b(1) by linarith
    have "x < ss_lower (a ! nat mid)" using assms(5) by (simp add: mid_def)
    also have "\<dots> \<le> ss_upper (a ! nat mid)"
      using ranges_ok_nth_le[OF assms(1,2), of "nat mid"] lt that(1) by simp
    also have "\<dots> < ss_lower (a ! k)"
      using ranges_ok_nth_less[OF assms(1,2) lt that(1)] .
    finally show ?thesis .
  qed
  then show ?thesis using b mid unfolding bracket_def mid_def[symmetric] by auto
qed

lemma bracket_above:
  assumes "ranges_ok (take n a)" "n \<le> length a" "bracket a n x low high" "low \<le> high"
    "x > ss_upper (a ! nat ((low + high) div 2))"
  shows "bracket a n x ((low + high) div 2 + 1) high"
proof -
  define mid where "mid = (low + high) div 2"
  have mid: "low \<le> mid" "mid \<le> high" using assms(4) by (simp_all add: mid_def)
  have b: "0 \<le> low" "high < int n"
    "\<And>k. k < n \<Longrightarrow> int k < low \<Longrightarrow> ss_upper (a ! k) < x"
    "\<And>k. k < n \<Longrightarrow> high < int k \<Longrightarrow> x < ss_lower (a ! k)"
    using assms(3) by (auto simp: bracket_def)
  have midn: "nat mid < n" using mid b by simp
  have "ss_upper (a ! k) < x" if "k < n" "int k < mid + 1" for k
  proof (cases "int k = mid")
    case True
    then have "k = nat mid" by simp
    then show ?thesis using assms(5) by (simp add: mid_def)
  next
    case False
    then have lt: "k < nat mid" using that(2) by simp
    have "ss_upper (a ! k) < ss_lower (a ! nat mid)"
      using ranges_ok_nth_less[OF assms(1,2) lt midn] .
    also have "\<dots> \<le> ss_upper (a ! nat mid)"
      using ranges_ok_nth_le[OF assms(1,2) midn] .
    also have "\<dots> < x" using assms(5) by (simp add: mid_def)
    finally show ?thesis .
  qed
  then show ?thesis using b mid unfolding bracket_def mid_def[symmetric] by auto
qed

lemma bracket_empty:
  assumes "ranges_ok (take n a)" "n \<le> length a" "bracket a n x low high" "\<not> low \<le> high"
  shows "nat low \<le> n \<and> (\<forall>k<n. \<not> contains (a ! k) x) \<and>
         (\<forall>k<nat low. ss_upper (a ! k) < x) \<and>
         (\<forall>k<n. nat low \<le> k \<longrightarrow> x < ss_lower (a ! k))"
proof -
  have b: "0 \<le> low" "high < int n" "low \<le> high + 1"
    "\<And>k. k < n \<Longrightarrow> int k < low \<Longrightarrow> ss_upper (a ! k) < x"
    "\<And>k. k < n \<Longrightarrow> high < int k \<Longrightarrow> x < ss_lower (a ! k)"
    using assms(3) by (auto simp: bracket_def)
  have eq: "low = high + 1" using b(3) assms(4) by simp
  have n: "nat low \<le> n" using b eq by simp
  have lo: "ss_upper (a ! k) < x" if "k < nat low" for k
    using b(4)[of k] that n by simp
  have hi: "x < ss_lower (a ! k)" if "k < n" "nat low \<le> k" for k
    using b(5)[of k] that eq b(1) by simp
  have "\<not> contains (a ! k) x" if "k < n" for k
  proof (cases "k < nat low")
    case True
    then show ?thesis using lo[of k] by (auto simp: contains_def)
  next
    case False
    then show ?thesis using hi[of k] that by (auto simp: contains_def)
  qed
  then show ?thesis using n lo hi by blast
qed

lemma find_loop_None:
  assumes "ranges_ok (take n a)" "n \<le> length a"
  shows "bracket a n x low high \<Longrightarrow> find_subseq_loop a x low high = None \<Longrightarrow>
         \<forall>k<n. \<not> contains (a ! k) x"
proof (induction "nat (high - low + 1)" arbitrary: low high rule: less_induct)
  case less
  show ?case
  proof (cases "low \<le> high")
    case False
    then show ?thesis using bracket_empty[OF assms less.prems(1)] by blast
  next
    case le: True
    define mid where "mid = (low + high) div 2"
    have mid: "low \<le> mid" "mid \<le> high" using le by (simp_all add: mid_def)
    consider (below) "x < ss_lower (a ! nat mid)"
      | (above) "\<not> x < ss_lower (a ! nat mid)" "x > ss_upper (a ! nat mid)"
      | (hit) "\<not> x < ss_lower (a ! nat mid)" "\<not> x > ss_upper (a ! nat mid)"
      by blast
    then show ?thesis
    proof cases
      case below
      then have "find_subseq_loop a x low (mid - 1) = None"
        using less.prems(2) le by (subst (asm) find_subseq_loop_unfold) (simp add: mid_def)
      moreover have "nat (mid - 1 - low + 1) < nat (high - low + 1)" using mid by simp
      moreover have "bracket a n x low (mid - 1)"
        using bracket_below[OF assms less.prems(1) le] below by (simp add: mid_def)
      ultimately show ?thesis using less.hyps by blast
    next
      case above
      then have "find_subseq_loop a x (mid + 1) high = None"
        using less.prems(2) le by (subst (asm) find_subseq_loop_unfold) (simp add: mid_def)
      moreover have "nat (high - (mid + 1) + 1) < nat (high - low + 1)" using mid by simp
      moreover have "bracket a n x (mid + 1) high"
        using bracket_above[OF assms less.prems(1) le] above by (simp add: mid_def)
      ultimately show ?thesis using less.hyps by blast
    next
      case hit
      then have False
        using less.prems(2) le by (subst (asm) find_subseq_loop_unfold) (simp add: mid_def)
      then show ?thesis ..
    qed
  qed
qed

lemma locate_loop_hit:
  "find_subseq_loop a x low high = Some i \<Longrightarrow> locate_subseq_loop a x low high = i"
proof (induction "nat (high - low + 1)" arbitrary: low high rule: less_induct)
  case less
  define mid where "mid = (low + high) div 2"
  have le: "low \<le> high"
    using less.prems(1) by (subst (asm) find_subseq_loop_unfold) (simp split: if_splits)
  have mid: "low \<le> mid" "mid \<le> high" using le by (simp_all add: mid_def)
  consider (below) "x < ss_lower (a ! nat mid)"
    | (above) "\<not> x < ss_lower (a ! nat mid)" "x > ss_upper (a ! nat mid)"
    | (hit) "\<not> x < ss_lower (a ! nat mid)" "\<not> x > ss_upper (a ! nat mid)"
    by blast
  then show ?case
  proof cases
    case below
    then have "find_subseq_loop a x low (mid - 1) = Some i"
      using less.prems(1) le by (subst (asm) find_subseq_loop_unfold) (simp add: mid_def)
    moreover have "nat (mid - 1 - low + 1) < nat (high - low + 1)" using mid by simp
    ultimately have "locate_subseq_loop a x low (mid - 1) = i"
      using less.hyps by blast
    then show ?thesis using below le
      by (subst locate_subseq_loop_unfold) (simp add: mid_def)
  next
    case above
    then have "find_subseq_loop a x (mid + 1) high = Some i"
      using less.prems(1) le by (subst (asm) find_subseq_loop_unfold) (simp add: mid_def)
    moreover have "nat (high - (mid + 1) + 1) < nat (high - low + 1)" using mid by simp
    ultimately have "locate_subseq_loop a x (mid + 1) high = i"
      using less.hyps by blast
    then show ?thesis using above le
      by (subst locate_subseq_loop_unfold) (simp add: mid_def)
  next
    case hit
    then have "i = nat mid"
      using less.prems(1) le by (subst (asm) find_subseq_loop_unfold) (simp add: mid_def)
    then show ?thesis using hit le
      by (subst locate_subseq_loop_unfold) (simp add: mid_def)
  qed
qed

lemma locate_loop_miss:
  assumes "ranges_ok (take n a)" "n \<le> length a"
  shows "bracket a n x low high \<Longrightarrow> find_subseq_loop a x low high = None \<Longrightarrow>
         locate_subseq_loop a x low high \<le> n \<and>
         (\<forall>k<locate_subseq_loop a x low high. ss_upper (a ! k) < x) \<and>
         (\<forall>k<n. locate_subseq_loop a x low high \<le> k \<longrightarrow> x < ss_lower (a ! k))"
proof (induction "nat (high - low + 1)" arbitrary: low high rule: less_induct)
  case less
  show ?case
  proof (cases "low \<le> high")
    case False
    then have "locate_subseq_loop a x low high = nat low"
      by (subst locate_subseq_loop_unfold) simp
    then show ?thesis using bracket_empty[OF assms less.prems(1) False] by simp
  next
    case le: True
    define mid where "mid = (low + high) div 2"
    have mid: "low \<le> mid" "mid \<le> high" using le by (simp_all add: mid_def)
    consider (below) "x < ss_lower (a ! nat mid)"
      | (above) "\<not> x < ss_lower (a ! nat mid)" "x > ss_upper (a ! nat mid)"
      | (hit) "\<not> x < ss_lower (a ! nat mid)" "\<not> x > ss_upper (a ! nat mid)"
      by blast
    then show ?thesis
    proof cases
      case below
      then have "find_subseq_loop a x low (mid - 1) = None"
        using less.prems(2) le by (subst (asm) find_subseq_loop_unfold) (simp add: mid_def)
      moreover have "nat (mid - 1 - low + 1) < nat (high - low + 1)" using mid by simp
      moreover have "bracket a n x low (mid - 1)"
        using bracket_below[OF assms less.prems(1) le] below by (simp add: mid_def)
      ultimately have ih: "locate_subseq_loop a x low (mid - 1) \<le> n \<and>
         (\<forall>k<locate_subseq_loop a x low (mid - 1). ss_upper (a ! k) < x) \<and>
         (\<forall>k<n. locate_subseq_loop a x low (mid - 1) \<le> k \<longrightarrow> x < ss_lower (a ! k))"
        using less.hyps by blast
      have "locate_subseq_loop a x low high = locate_subseq_loop a x low (mid - 1)"
        using below le by (subst locate_subseq_loop_unfold) (simp add: mid_def)
      then show ?thesis using ih by presburger
    next
      case above
      then have "find_subseq_loop a x (mid + 1) high = None"
        using less.prems(2) le by (subst (asm) find_subseq_loop_unfold) (simp add: mid_def)
      moreover have "nat (high - (mid + 1) + 1) < nat (high - low + 1)" using mid by simp
      moreover have "bracket a n x (mid + 1) high"
        using bracket_above[OF assms less.prems(1) le] above by (simp add: mid_def)
      ultimately have ih: "locate_subseq_loop a x (mid + 1) high \<le> n \<and>
         (\<forall>k<locate_subseq_loop a x (mid + 1) high. ss_upper (a ! k) < x) \<and>
         (\<forall>k<n. locate_subseq_loop a x (mid + 1) high \<le> k \<longrightarrow> x < ss_lower (a ! k))"
        using less.hyps by blast
      have "locate_subseq_loop a x low high = locate_subseq_loop a x (mid + 1) high"
        using above le by (subst locate_subseq_loop_unfold) (simp add: mid_def)
      then show ?thesis using ih by presburger
    next
      case hit
      then have False
        using less.prems(2) le by (subst (asm) find_subseq_loop_unfold) (simp add: mid_def)
      then show ?thesis ..
    qed
  qed
qed

lemma wf_take:
  "nameseq_wf nseq \<Longrightarrow>
     ranges_ok (take (first_free nseq) (sseqs nseq)) \<and> first_free nseq \<le> length (sseqs nseq)"
  by (simp add: nameseq_wf_def array_ok_def live_def)

lemma find_subseq_Some:
  assumes "nameseq_find_subseq nseq x = Some i"
  shows "i < first_free nseq \<and> contains (sseqs nseq ! i) x"
  using find_loop_Some[of "sseqs nseq" x 0 "int (first_free nseq) - 1" i] assms
  by (simp add: nameseq_find_subseq_def)

lemma find_subseq_None:
  assumes "nameseq_wf nseq" "nameseq_find_subseq nseq x = None" "k < first_free nseq"
  shows "\<not> contains (sseqs nseq ! k) x"
proof -
  have "\<forall>k<first_free nseq. \<not> contains (sseqs nseq ! k) x"
    using find_loop_None[of "first_free nseq" "sseqs nseq" x 0 "int (first_free nseq) - 1"]
      wf_take[OF assms(1)] assms(2) bracket_init
    by (simp add: nameseq_find_subseq_def)
  then show ?thesis using assms(3) by blast
qed

lemma contains_unique:
  assumes "nameseq_wf nseq" "i < first_free nseq" "j < first_free nseq"
    "contains (sseqs nseq ! i) x" "contains (sseqs nseq ! j) x"
  shows "i = j"
proof (rule ccontr)
  assume ne: "i \<noteq> j"
  note w = wf_take[OF assms(1)]
  have False if "p < q" "q < first_free nseq" "contains (sseqs nseq ! p) x"
    "contains (sseqs nseq ! q) x" for p q
  proof -
    have "ss_upper (sseqs nseq ! p) < ss_lower (sseqs nseq ! q)"
      using ranges_ok_nth_less[of "first_free nseq" "sseqs nseq" p q] w that by simp
    then show False using that(3,4) by (auto simp: contains_def)
  qed
  from this[of i j] this[of j i] ne assms show False
    by (cases "i < j") auto
qed

lemma find_subseq_iff:
  assumes "nameseq_wf nseq"
  shows "nameseq_find_subseq nseq x = Some i \<longleftrightarrow>
         i < first_free nseq \<and> contains (sseqs nseq ! i) x"
proof
  assume "nameseq_find_subseq nseq x = Some i"
  then show "i < first_free nseq \<and> contains (sseqs nseq ! i) x" by (rule find_subseq_Some)
next
  assume r: "i < first_free nseq \<and> contains (sseqs nseq ! i) x"
  show "nameseq_find_subseq nseq x = Some i"
  proof (cases "nameseq_find_subseq nseq x")
    case None
    then show ?thesis using find_subseq_None[OF assms None, of i] r by simp
  next
    case (Some j)
    then have "j < first_free nseq \<and> contains (sseqs nseq ! j) x" by (rule find_subseq_Some)
    then have "j = i" using contains_unique[OF assms, of j i x] r by simp
    then show ?thesis using Some by simp
  qed
qed

lemma locate_subseq_hit:
  assumes "nameseq_wf nseq" "i < first_free nseq" "contains (sseqs nseq ! i) x"
  shows "nameseq_locate_subseq nseq x = i"
proof -
  have "nameseq_find_subseq nseq x = Some i"
    using find_subseq_iff[OF assms(1)] assms(2,3) by simp
  then show ?thesis
    using locate_loop_hit[of "sseqs nseq" x 0 "int (first_free nseq) - 1" i]
    by (simp add: nameseq_find_subseq_def nameseq_locate_subseq_def)
qed

lemma locate_subseq_miss:
  assumes "nameseq_wf nseq" "nameseq_find_subseq nseq x = None"
  shows "nameseq_locate_subseq nseq x \<le> first_free nseq"
    and "k < nameseq_locate_subseq nseq x \<Longrightarrow> ss_upper (sseqs nseq ! k) < x"
    and "nameseq_locate_subseq nseq x \<le> k \<Longrightarrow> k < first_free nseq \<Longrightarrow>
           x < ss_lower (sseqs nseq ! k)"
  using locate_loop_miss[of "first_free nseq" "sseqs nseq" x 0 "int (first_free nseq) - 1"]
    wf_take[OF assms(1)] assms(2) bracket_init
  by (simp_all add: nameseq_find_subseq_def nameseq_locate_subseq_def)

lemma locate_subseq_insertion_index:
  assumes "nameseq_wf nseq" "nameseq_find_subseq nseq x = None"
  shows "nameseq_locate_subseq nseq x = insertion_index (live nseq) x"
proof -
  define r where "r = nameseq_locate_subseq nseq x"
  note w = wf_take[OF assms(1)]
  note m = locate_subseq_miss[OF assms, folded r_def]
  have "takeWhile (\<lambda>s. ss_lower s \<le> x) (live nseq) = take r (live nseq)"
  proof (rule takeWhile_eq_take_P_nth)
    fix i assume i: "i < r" "i < length (live nseq)"
    then have "i < first_free nseq" by (simp add: live_def)
    then have "ss_lower (sseqs nseq ! i) \<le> ss_upper (sseqs nseq ! i)"
      using ranges_ok_nth_le[of "first_free nseq" "sseqs nseq" i] w by simp
    also have "\<dots> < x" using m(2)[OF i(1)] .
    finally show "ss_lower (live nseq ! i) \<le> x" using i by (simp add: live_def)
  next
    assume "r < length (live nseq)"
    then have "r < first_free nseq" by (simp add: live_def)
    then show "\<not> ss_lower (live nseq ! r) \<le> x"
      using m(3)[of r] by (simp add: live_def not_le)
  qed
  then have "insertion_index (live nseq) x = length (take r (live nseq))"
    by (simp add: insertion_index_def)
  also have "\<dots> = r" using m(1) w by (simp add: live_def)
  finally show ?thesis by (simp add: r_def)
qed

subsection \<open>C9: what the locate search returns\<close>

text \<open>
  C9 (as amended).  In a name sequence whose slots in use are sorted with disjoint
  ranges, \<^verbatim>\<open>nameseq_locate_subseq\<close> returns the index of the sub-sequence that contains
  the instance when there is one.  When no sub-sequence contains the instance it returns
  the insertion index: the lowest index whose sub-sequence has a lower bound greater than
  the instance, else \<open>first_free\<close>.
\<close>

theorem locate_subseq_correct:
  assumes "nameseq_wf nseq"
  shows "(i < first_free nseq \<and> contains (sseqs nseq ! i) inst
            \<longrightarrow> nameseq_locate_subseq nseq inst = i) \<and>
         (list_all (\<lambda>s. \<not> contains s inst) (live nseq)
            \<longrightarrow> nameseq_locate_subseq nseq inst = insertion_index (live nseq) inst)"
proof -
  have "nameseq_find_subseq nseq inst = None"
    if a: "list_all (\<lambda>s. \<not> contains s inst) (live nseq)"
  proof (cases "nameseq_find_subseq nseq inst")
    case None
    then show ?thesis .
  next
    case (Some j)
    then have j: "j < first_free nseq \<and> contains (sseqs nseq ! j) inst"
      by (rule find_subseq_Some)
    then have "j < length (live nseq)" using wf_take[OF assms] by (simp add: live_def)
    then have "\<not> contains (live nseq ! j) inst" using a by (simp add: list_all_length)
    then show ?thesis using j by (simp add: live_def)
  qed
  then show ?thesis
    using locate_subseq_hit[OF assms] locate_subseq_insertion_index[OF assms] by blast
qed

lemma locate_example_wf: "nameseq_wf locate_example"
  by (simp add: nameseq_wf_def array_ok_def ranges_ok_def live_def locate_example_def)

theorem locate_subseq_correct_witness:
  "nameseq_locate_subseq locate_example 5 = 1 \<and>
   nameseq_locate_subseq locate_example 3 = insertion_index (live locate_example) 3 \<and>
   insertion_index (live locate_example) 3 = 1"
proof -
  have c: "1 < first_free locate_example \<and> contains (sseqs locate_example ! 1) 5"
    by (simp add: locate_example_def contains_def)
  have d: "list_all (\<lambda>s. \<not> contains s 3) (live locate_example)"
    by (simp add: locate_example_def contains_def live_def)
  show ?thesis
    using locate_subseq_correct[OF locate_example_wf, of 1 5]
      locate_subseq_correct[OF locate_example_wf, of 0 3] c d
    by (simp add: insertion_index_def live_def locate_example_def)
qed

text \<open>
  The claim as the specification words it fails: between the ranges \<open>[1, 2]\<close> and
  \<open>[5, 6]\<close> the search for 3 returns 1, the index of the slot it would be inserted at,
  where the specification's tie-break names the index 0.
\<close>

theorem locate_subseq_spec_counterexample:
  "nameseq_wf locate_example \<and>
   list_all (\<lambda>s. \<not> contains s 3) (live locate_example) \<and>
   nameseq_locate_subseq locate_example 3 = 1 \<and>
   spec_insertion_index (live locate_example) 3 = 0"
  using locate_example_wf
  by (simp add: nameseq_locate_subseq_def locate_example_def locate_subseq_loop_unfold
      spec_insertion_index_def live_def contains_def)

subsection \<open>Moving slots of the array\<close>

lemma length_memmove:
  "dst + n \<le> length a \<Longrightarrow> src + n \<le> length a \<Longrightarrow> length (memmove a dst src n) = length a"
  by (simp add: memmove_def)

lemma live_insert_slot:
  assumes "p \<le> ff" "ff < length a"
  shows "take (Suc ff) ((memmove a (Suc p) p (ff - p))[p := new]) =
         take p (take ff a) @ new # drop p (take ff a)"
proof -
  have m: "memmove a (Suc p) p (ff - p) = take (Suc p) a @ take (ff - p) (drop p a) @ drop (Suc ff) a"
    using assms by (simp add: memmove_def)
  have l: "length (take (Suc p) a) = Suc p" using assms by simp
  have "length (take p a) = p" using assms by simp
  then have "(take p a @ [a ! p])[p := new] = take p a @ [new]"
    by (metis list_update_length)
  then have "(take (Suc p) a)[p := new] = take p a @ [new]"
    using assms by (simp add: take_Suc_conv_app_nth)
  then have u: "(memmove a (Suc p) p (ff - p))[p := new] =
      take p a @ [new] @ take (ff - p) (drop p a) @ drop (Suc ff) a"
    using l by (simp add: m list_update_append)
  have t: "take (ff - p) (drop p a) = drop p (take ff a)"
    by (simp add: drop_take)
  have len: "length (take p a @ [new] @ take (ff - p) (drop p a)) = Suc ff"
    using assms by simp
  have "take (Suc ff) ((memmove a (Suc p) p (ff - p))[p := new]) =
        take p a @ [new] @ take (ff - p) (drop p a)"
    unfolding u using len
    by (metis append.assoc append_eq_conv_conj)
  also have "\<dots> = take p (take ff a) @ new # drop p (take ff a)"
    using assms t by (simp add: min_def)
  finally show ?thesis .
qed

lemma live_remove_slot:
  assumes "i < ff" "ff \<le> length a"
  shows "take (ff - 1) (memmove a i (Suc i) (ff - Suc i)) =
         take i (take ff a) @ drop (Suc i) (take ff a)"
proof -
  have m: "memmove a i (Suc i) (ff - Suc i) =
      take i a @ take (ff - Suc i) (drop (Suc i) a) @ drop (ff - 1) a"
    using assms by (simp add: memmove_def)
  have t: "take (ff - Suc i) (drop (Suc i) a) = drop (Suc i) (take ff a)"
    by (simp add: drop_take)
  have len: "length (take i a @ take (ff - Suc i) (drop (Suc i) a)) = ff - 1"
    using assms by simp
  have "take (ff - 1) (memmove a i (Suc i) (ff - Suc i)) =
        take i a @ take (ff - Suc i) (drop (Suc i) a)"
    unfolding m using len
    by (metis append.assoc append_eq_conv_conj)
  also have "\<dots> = take i (take ff a) @ drop (Suc i) (take ff a)"
    using assms t by (simp add: min_def)
  finally show ?thesis .
qed

lemma ranges_ok_insert:
  assumes "ranges_ok xs" "p \<le> length xs" "ss_lower new \<le> ss_upper new"
    "\<And>k. k < p \<Longrightarrow> ss_upper (xs ! k) < ss_lower new"
    "\<And>k. p \<le> k \<Longrightarrow> k < length xs \<Longrightarrow> ss_upper new < ss_lower (xs ! k)"
  shows "ranges_ok (take p xs @ new # drop p xs)"
proof -
  have s: "sorted_wrt (\<lambda>a b. ss_upper a < ss_lower b) xs"
    and a: "list_all (\<lambda>s. ss_lower s \<le> ss_upper s) xs"
    using assms(1) by (simp_all add: ranges_ok_def)
  have xs: "xs = take p xs @ drop p xs" by simp
  have s2: "sorted_wrt (\<lambda>a b. ss_upper a < ss_lower b) (take p xs @ drop p xs)"
    using s by simp
  have below: "ss_upper y < ss_lower new" if "y \<in> set (take p xs)" for y
  proof -
    have "\<exists>k<length (take p xs). take p xs ! k = y"
      using that by (simp only: in_set_conv_nth)
    then obtain k where "k < length (take p xs)" "take p xs ! k = y" by blast
    then show ?thesis using assms(4)[of k] by simp
  qed
  have above: "ss_upper new < ss_lower y" if "y \<in> set (drop p xs)" for y
  proof -
    have "\<exists>k<length (drop p xs). drop p xs ! k = y"
      using that by (simp only: in_set_conv_nth)
    then obtain k where k: "k < length (drop p xs)" "drop p xs ! k = y" by blast
    then show ?thesis using assms(5)[of "p + k"] assms(2) by simp
  qed
  have "sorted_wrt (\<lambda>a b. ss_upper a < ss_lower b) (take p xs @ new # drop p xs)"
    using s2 below above by (auto simp: sorted_wrt_append simp del: append_take_drop_id)
  moreover have "list_all (\<lambda>s. ss_lower s \<le> ss_upper s) (take p xs @ new # drop p xs)"
    using a assms(3) by (auto simp: list_all_iff dest: in_set_takeD in_set_dropD)
  ultimately show ?thesis by (simp add: ranges_ok_def)
qed

lemma ranges_ok_remove:
  assumes "ranges_ok xs"
  shows "ranges_ok (take i xs @ drop (Suc i) xs)"
proof -
  have s: "sorted_wrt (\<lambda>a b. ss_upper a < ss_lower b) (take i xs @ drop i xs)"
    and a: "list_all (\<lambda>s. ss_lower s \<le> ss_upper s) xs"
    using assms by (simp_all add: ranges_ok_def)
  have sub: "set (drop (Suc i) xs) \<subseteq> set (drop i xs)"
    by (simp add: set_drop_subset_set_drop)
  have "sorted_wrt (\<lambda>a b. ss_upper a < ss_lower b) (drop (Suc i) xs)"
    using assms by (simp add: ranges_ok_def sorted_wrt_drop)
  then have "sorted_wrt (\<lambda>a b. ss_upper a < ss_lower b) (take i xs @ drop (Suc i) xs)"
    using s sub by (auto simp: sorted_wrt_append simp del: append_take_drop_id)
  moreover have "list_all (\<lambda>s. ss_lower s \<le> ss_upper s) (take i xs @ drop (Suc i) xs)"
    using a by (auto simp: list_all_iff dest: in_set_takeD in_set_dropD)
  ultimately show ?thesis by (simp add: ranges_ok_def)
qed

lemma ranges_ok_update:
  assumes "ranges_ok xs" "i < length xs"
    "ss_lower s = ss_lower (xs ! i)" "ss_upper s = ss_upper (xs ! i)"
  shows "ranges_ok (xs[i := s])"
proof -
  have l: "ss_lower (xs[i := s] ! k) = ss_lower (xs ! k)" if "k < length xs" for k
    using that assms by (cases "k = i") simp_all
  have u: "ss_upper (xs[i := s] ! k) = ss_upper (xs ! k)" if "k < length xs" for k
    using that assms by (cases "k = i") simp_all
  have "sorted_wrt (\<lambda>a b. ss_upper a < ss_lower b) (xs[i := s])"
    using assms(1) l u by (simp add: ranges_ok_def sorted_wrt_iff_nth_less)
  moreover have "list_all (\<lambda>s. ss_lower s \<le> ss_upper s) (xs[i := s])"
    using assms(1) l u by (simp add: ranges_ok_def list_all_length)
  ultimately show ?thesis by (simp add: ranges_ok_def)
qed

subsection \<open>Publication insert, step by step\<close>

lemma add_publ_bounds [simp]:
  "ss_lower (add_publ net publ s) = ss_lower s" "ss_upper (add_publ net publ s) = ss_upper s"
  "all_publ (info (add_publ net publ s)) = publ # all_publ (info s)"
  by (simp_all add: add_publ_def)

lemma insert_a_publication_Some:
  assumes "insert_a_publication net nseq i c type lower upper scope node port key m =
           (Some publ, evs, nseq', m')"
  shows "publ = \<lparr>p_type = type, p_lower = lower, p_upper = upper, p_scope = scope,
                  p_node = node, p_port = port, p_key = key\<rparr>"
    and "nseq' = nseq\<lparr>sseqs := (sseqs nseq)[i := add_publ net publ (sseqs nseq ! i)]\<rparr>"
    and "evs = published_reports publ c (subscriptions nseq)"
    and "kmalloc m = (True, m')"
  using assms
  by (auto simp: insert_a_publication_def publ_create_def add_publ_def list_add_def Let_def
      published_reports_def split: prod.splits if_splits)

lemma insert_a_publication_None:
  assumes "insert_a_publication net nseq i c type lower upper scope node port key m =
           (None, evs, nseq', m')"
  shows "nseq' = nseq \<and> evs = [] \<and> kmalloc m = (False, m')"
  using assms
  by (auto simp: insert_a_publication_def publ_create_def Let_def split: prod.splits if_splits)

lemma insert_a_publication_nil:
  "\<exists>publ evs nseq'. insert_a_publication net nseq i c type lower upper scope node port key [] =
           (Some publ, evs, nseq', [])"
  by (simp add: insert_a_publication_def publ_create_def Let_def)

lemma ensure_space_Some:
  assumes "array_ok nseq" "ensure_space nseq m = (Some nseq1, m1)"
  shows "array_ok nseq1" "first_free nseq1 < alloc nseq1" "first_free nseq1 = first_free nseq"
    "take (first_free nseq) (sseqs nseq1) = take (first_free nseq) (sseqs nseq)"
    "ns_type nseq1 = ns_type nseq" "subscriptions nseq1 = subscriptions nseq"
  using assms
  by (auto simp: ensure_space_def tipc_subseq_alloc_def array_ok_def
      split: if_splits prod.splits option.splits)

lemma ensure_space_None:
  assumes "ensure_space nseq m = (None, m1)"
  shows "kmalloc m = (False, m1)"
  using assms
  by (auto simp: ensure_space_def tipc_subseq_alloc_def split: if_splits prod.splits option.splits)

lemma ensure_space_nil: "\<exists>nseq1. ensure_space nseq [] = (Some nseq1, [])"
  by (simp add: ensure_space_def tipc_subseq_alloc_def)

lemma insert_publ_found:
  assumes f: "nameseq_find_subseq nseq lower = Some i"
  shows "tipc_nameseq_insert_publ net nseq type lower upper scope node port key m =
     (if ss_lower (sseqs nseq ! i) \<noteq> lower \<or> ss_upper (sseqs nseq ! i) \<noteq> upper
      then (None, [], nseq, m)
      else if duplicate (sseqs nseq ! i) node port key then (None, [], nseq, m)
      else insert_a_publication net nseq i False type lower upper scope node port key m)"
  by (simp add: tipc_nameseq_insert_publ_def f Let_def duplicate_def)

lemma insert_publ_new:
  assumes f: "nameseq_find_subseq nseq lower = None"
  shows "tipc_nameseq_insert_publ net nseq type lower upper scope node port key m =
     (let p = nameseq_locate_subseq nseq lower in
      if p < first_free nseq \<and> ss_lower (sseqs nseq ! p) \<le> upper then (None, [], nseq, m)
      else
        (case ensure_space nseq m of
           (None, m1) \<Rightarrow> (None, [], nseq, m1)
         | (Some nseq1, m1) \<Rightarrow>
             (case kmalloc m1 of (info_ok, m2) \<Rightarrow>
                if \<not> info_ok then (None, [], nseq1, m2)
                else insert_a_publication net
                       (nseq1\<lparr>sseqs := (memmove (sseqs nseq1) (Suc p) p (first_free nseq1 - p))
                                          [p := new_sub_seq lower upper],
                              first_free := Suc (first_free nseq1)\<rparr>)
                       p True type lower upper scope node port key m2)))"
  by (simp add: tipc_nameseq_insert_publ_def f Let_def new_sub_seq_def
      split: prod.splits option.splits)

lemma insert_publ_Some_found:
  assumes wf: "nameseq_wf nseq"
    and f: "nameseq_find_subseq nseq lower = Some i"
    and r: "tipc_nameseq_insert_publ net nseq type lower upper scope node port key m =
            (Some publ, evs, nseq', m')"
  shows "publ = new_publ type lower upper scope node port key"
    and "ss_lower (sseqs nseq ! i) = lower" and "ss_upper (sseqs nseq ! i) = upper"
    and "\<not> duplicate (sseqs nseq ! i) node port key"
    and "nseq' = nseq\<lparr>sseqs := (sseqs nseq)[i := add_publ net publ (sseqs nseq ! i)]\<rparr>"
    and "live nseq' = (live nseq)[i := add_publ net publ (live nseq ! i)]"
    and "evs = published_reports publ False (subscriptions nseq)"
proof -
  have e: "ss_lower (sseqs nseq ! i) = lower \<and> ss_upper (sseqs nseq ! i) = upper"
    and d: "\<not> duplicate (sseqs nseq ! i) node port key"
    and a: "insert_a_publication net nseq i False type lower upper scope node port key m =
            (Some publ, evs, nseq', m')"
    using r unfolding insert_publ_found[OF f] by (auto split: if_splits)
  note s = insert_a_publication_Some[OF a]
  have i: "i < first_free nseq" using find_subseq_Some[OF f] by simp
  show "publ = new_publ type lower upper scope node port key"
    using s(1) by (simp add: new_publ_def)
  show "ss_lower (sseqs nseq ! i) = lower" "ss_upper (sseqs nseq ! i) = upper"
    using e by simp_all
  show "\<not> duplicate (sseqs nseq ! i) node port key" by (rule d)
  show "nseq' = nseq\<lparr>sseqs := (sseqs nseq)[i := add_publ net publ (sseqs nseq ! i)]\<rparr>"
    by (rule s(2))
  show "live nseq' = (live nseq)[i := add_publ net publ (live nseq ! i)]"
    using i by (simp add: s(2) live_def take_update_swap)
  show "evs = published_reports publ False (subscriptions nseq)" by (rule s(3))
qed

lemma insert_publ_Some_new:
  assumes wf: "nameseq_wf nseq"
    and f: "nameseq_find_subseq nseq lower = None"
    and r: "tipc_nameseq_insert_publ net nseq type lower upper scope node port key m =
            (Some publ, evs, nseq', m')"
  shows "publ = new_publ type lower upper scope node port key"
    and "\<not> (nameseq_locate_subseq nseq lower < first_free nseq \<and>
             ss_lower (sseqs nseq ! nameseq_locate_subseq nseq lower) \<le> upper)"
    and "array_ok nseq'"
    and "first_free nseq' = Suc (first_free nseq)"
    and "live nseq' = take (nameseq_locate_subseq nseq lower) (live nseq) @
           add_publ net publ (new_sub_seq lower upper) #
           drop (nameseq_locate_subseq nseq lower) (live nseq)"
    and "evs = published_reports publ True (subscriptions nseq)"
    and "ns_type nseq' = ns_type nseq" and "subscriptions nseq' = subscriptions nseq"
proof -
  define p where "p = nameseq_locate_subseq nseq lower"
  have ok: "array_ok nseq" using wf by (simp add: nameseq_wf_def)
  have pff: "p \<le> first_free nseq"
    using locate_subseq_miss(1)[OF wf f] by (simp add: p_def)
  have no: "\<not> (p < first_free nseq \<and> ss_lower (sseqs nseq ! p) \<le> upper)"
    using r unfolding insert_publ_new[OF f] by (auto simp: Let_def p_def split: if_splits)
  obtain nseq1 m1 where es: "ensure_space nseq m = (Some nseq1, m1)"
    using r no unfolding insert_publ_new[OF f]
    by (cases "ensure_space nseq m") (auto simp: Let_def p_def split: if_splits option.splits)
  obtain m2 where km: "kmalloc m1 = (True, m2)"
    using r no es unfolding insert_publ_new[OF f]
    by (cases "kmalloc m1") (auto simp: Let_def p_def split: if_splits)
  define nseq2 where "nseq2 = nseq1\<lparr>sseqs := (memmove (sseqs nseq1) (Suc p) p (first_free nseq1 - p))
                                          [p := new_sub_seq lower upper],
                              first_free := Suc (first_free nseq1)\<rparr>"
  have a: "insert_a_publication net nseq2 p True type lower upper scope node port key m2 =
            (Some publ, evs, nseq', m')"
    using r no es km unfolding insert_publ_new[OF f]
    by (simp add: Let_def p_def[symmetric] nseq2_def)
  note s = insert_a_publication_Some[OF a]
  note e = ensure_space_Some[OF ok es]
  have ff1: "first_free nseq1 = first_free nseq" by (rule e(3))
  have len1: "first_free nseq < length (sseqs nseq1)"
    using e(1,2) ff1 by (simp add: array_ok_def)
  have lenm: "length (memmove (sseqs nseq1) (Suc p) p (first_free nseq - p)) = length (sseqs nseq1)"
    using pff len1 by (simp add: length_memmove)
  have plen: "p < length (memmove (sseqs nseq1) (Suc p) p (first_free nseq - p))"
    using pff len1 lenm by simp
  have sseqs': "sseqs nseq' = (memmove (sseqs nseq1) (Suc p) p (first_free nseq - p))
                   [p := add_publ net publ (new_sub_seq lower upper)]"
    using plen by (simp add: s(2) nseq2_def ff1)
  have ff': "first_free nseq' = Suc (first_free nseq)"
    by (simp add: s(2) nseq2_def ff1)
  show "publ = new_publ type lower upper scope node port key"
    using s(1) by (simp add: new_publ_def)
  show "\<not> (nameseq_locate_subseq nseq lower < first_free nseq \<and>
             ss_lower (sseqs nseq ! nameseq_locate_subseq nseq lower) \<le> upper)"
    using no by (simp add: p_def)
  show "array_ok nseq'"
    using e(1,2) lenm ff1 by (simp add: array_ok_def s(2) nseq2_def)
  show "first_free nseq' = Suc (first_free nseq)" by (rule ff')
  have "live nseq' = take p (take (first_free nseq) (sseqs nseq1)) @
           add_publ net publ (new_sub_seq lower upper) #
           drop p (take (first_free nseq) (sseqs nseq1))"
    unfolding live_def ff' sseqs' using live_insert_slot[OF pff len1] .
  then show "live nseq' = take (nameseq_locate_subseq nseq lower) (live nseq) @
           add_publ net publ (new_sub_seq lower upper) #
           drop (nameseq_locate_subseq nseq lower) (live nseq)"
    by (simp add: e(4) live_def p_def)
  show "evs = published_reports publ True (subscriptions nseq)"
    using s(3) by (simp add: nseq2_def e(6))
  show "ns_type nseq' = ns_type nseq" "subscriptions nseq' = subscriptions nseq"
    by (simp_all add: s(2) nseq2_def e(5,6))
qed

subsection \<open>The insert keeps the invariant\<close>

lemma live_nth: "i < first_free nseq \<Longrightarrow> live nseq ! i = sseqs nseq ! i"
  by (simp add: live_def)

lemma length_live: "array_ok nseq \<Longrightarrow> length (live nseq) = first_free nseq"
  by (simp add: live_def array_ok_def)

lemma insert_publ_wf:
  assumes wf: "nameseq_wf nseq" and le: "lower \<le> upper"
    and r: "tipc_nameseq_insert_publ net nseq type lower upper scope node port key m =
            (Some publ, evs, nseq', m')"
  shows "nameseq_wf nseq'"
proof (cases "nameseq_find_subseq nseq lower")
  case (Some i)
  note s = insert_publ_Some_found[OF wf Some r]
  have ok: "array_ok nseq" and ro: "ranges_ok (live nseq)"
    using wf by (simp_all add: nameseq_wf_def)
  have i: "i < length (live nseq)"
    using find_subseq_Some[OF Some] ok by (simp add: length_live)
  have "ranges_ok ((live nseq)[i := add_publ net publ (live nseq ! i)])"
    using ro i by (rule ranges_ok_update) simp_all
  moreover have "array_ok nseq'" using ok by (simp add: s(5) array_ok_def)
  ultimately show ?thesis by (simp add: nameseq_wf_def s(6))
next
  case None
  note s = insert_publ_Some_new[OF wf None r]
  define p where "p = nameseq_locate_subseq nseq lower"
  have ok: "array_ok nseq" and ro: "ranges_ok (live nseq)"
    using wf by (simp_all add: nameseq_wf_def)
  note w = wf_take[OF wf]
  note m = locate_subseq_miss[OF wf None, folded p_def]
  have "ranges_ok (take p (live nseq) @ add_publ net publ (new_sub_seq lower upper) #
                   drop p (live nseq))"
  proof (rule ranges_ok_insert[OF ro])
    show "p \<le> length (live nseq)" using m(1) ok by (simp add: length_live)
    show "ss_lower (add_publ net publ (new_sub_seq lower upper))
            \<le> ss_upper (add_publ net publ (new_sub_seq lower upper))"
      using le by (simp add: new_sub_seq_def)
  next
    fix k assume k: "k < p"
    then have "k < first_free nseq" using m(1) by simp
    then show "ss_upper (live nseq ! k) < ss_lower (add_publ net publ (new_sub_seq lower upper))"
      using m(2)[OF k] by (simp add: live_nth new_sub_seq_def)
  next
    fix k assume k: "p \<le> k" "k < length (live nseq)"
    then have kff: "k < first_free nseq" using ok by (simp add: length_live)
    then have pff: "p < first_free nseq" using k by simp
    then have up: "upper < ss_lower (sseqs nseq ! p)"
      using s(2) by (simp add: p_def not_le)
    have "ss_lower (sseqs nseq ! p) \<le> ss_lower (sseqs nseq ! k)"
    proof (cases "k = p")
      case True
      then show ?thesis by simp
    next
      case False
      then have lt: "p < k" using k by simp
      have "ss_lower (sseqs nseq ! p) \<le> ss_upper (sseqs nseq ! p)"
        using ranges_ok_nth_le[of "first_free nseq" "sseqs nseq" p] w pff by simp
      also have "\<dots> < ss_lower (sseqs nseq ! k)"
        using ranges_ok_nth_less[of "first_free nseq" "sseqs nseq" p k] w lt kff by simp
      finally show ?thesis by simp
    qed
    then show "ss_upper (add_publ net publ (new_sub_seq lower upper)) < ss_lower (live nseq ! k)"
      using up kff by (simp add: live_nth new_sub_seq_def)
  qed
  then show ?thesis using s(3) by (simp add: nameseq_wf_def s(5) p_def)
qed

lemma insert_publ_inv:
  assumes inv: "nameseq_inv nseq" and le: "lower \<le> upper"
    and r: "tipc_nameseq_insert_publ net nseq type lower upper scope node port key m =
            (Some publ, evs, nseq', m')"
  shows "nameseq_inv nseq'"
proof -
  have wf: "nameseq_wf nseq"
    and ne: "list_all (\<lambda>s. all_publ (info s) \<noteq> []) (live nseq)"
    using inv by (simp_all add: nameseq_inv_def)
  have wf': "nameseq_wf nseq'" by (rule insert_publ_wf[OF wf le r])
  have "list_all (\<lambda>s. all_publ (info s) \<noteq> []) (live nseq')"
  proof (cases "nameseq_find_subseq nseq lower")
    case (Some i)
    note s = insert_publ_Some_found[OF wf Some r]
    show ?thesis using ne
      by (auto simp: s(6) list_all_iff dest!: set_update_subset_insert[THEN subsetD])
  next
    case None
    note s = insert_publ_Some_new[OF wf None r]
    show ?thesis using ne
      by (auto simp: s(5) list_all_iff dest: in_set_takeD in_set_dropD)
  qed
  then show ?thesis using wf' by (simp add: nameseq_inv_def)
qed

subsection \<open>Publication remove, step by step\<close>

lemma remove_publ_miss:
  assumes "nameseq_find_subseq nseq inst = None"
  shows "tipc_nameseq_remove_publ net nseq inst node port key = Inr (None, [], nseq)"
  by (simp add: tipc_nameseq_remove_publ_def assms)

lemma remove_publ_found:
  assumes f: "nameseq_find_subseq nseq inst = Some i"
  shows "tipc_nameseq_remove_publ net nseq inst node port key =
     (case find (\<lambda>publ. matches publ node port key) (all_publ (info (sseqs nseq ! i))) of
        None \<Rightarrow> Inr (None, [], nseq)
      | Some publ \<Rightarrow>
          if in_own_node net node \<and> publ \<notin> set (local_publ (info (sseqs nseq ! i)))
          then Inl Bad_list_access
          else
            Inr (Some publ,
                 withdrawn_reports publ
                   (remove1 publ (all_publ (info (sseqs nseq ! i))) = []) (subscriptions nseq),
                 if remove1 publ (all_publ (info (sseqs nseq ! i))) = []
                 then nseq\<lparr>sseqs := memmove (sseqs nseq) i (Suc i) (first_free nseq - Suc i),
                           first_free := first_free nseq - 1\<rparr>
                 else nseq\<lparr>sseqs := (sseqs nseq)[i := (sseqs nseq ! i)\<lparr>info :=
                        \<lparr>local_publ = (if in_own_node net node
                                        then remove1 publ (local_publ (info (sseqs nseq ! i)))
                                        else local_publ (info (sseqs nseq ! i))),
                         all_publ = remove1 publ (all_publ (info (sseqs nseq ! i)))\<rparr>\<rparr>]\<rparr>))"
proof (cases "find (\<lambda>publ. matches publ node port key) (all_publ (info (sseqs nseq ! i)))")
  case None
  then show ?thesis
    by (simp add: tipc_nameseq_remove_publ_def f Let_def matches_def)
next
  case (Some publ)
  then have mem: "publ \<in> set (all_publ (info (sseqs nseq ! i)))"
    by (auto simp: find_Some_iff)
  show ?thesis
    using Some mem
    by (simp add: tipc_nameseq_remove_publ_def f Let_def matches_def[abs_def] list_del_def
        withdrawn_reports_def)
qed

lemma ranges_ok_iff:
  "ranges_ok xs \<longleftrightarrow>
     list_all (\<lambda>s. ss_lower s \<le> ss_upper s) xs \<and>
     sorted_wrt (\<lambda>a b. ss_lower a < ss_lower b) xs \<and> sorted_wrt disjoint xs"
proof -
  have "sorted_wrt (\<lambda>a b. ss_upper a < ss_lower b) xs \<longleftrightarrow>
        sorted_wrt (\<lambda>a b. ss_lower a < ss_lower b) xs \<and> sorted_wrt disjoint xs"
    if v: "list_all (\<lambda>s. ss_lower s \<le> ss_upper s) xs"
  proof -
    have le: "ss_lower (xs ! i) \<le> ss_upper (xs ! i)" if "i < length xs" for i
      using v that by (simp add: list_all_length)
    show ?thesis
      unfolding sorted_wrt_iff_nth_less disjoint_def
    proof (intro iffI conjI allI impI)
      fix i j assume a: "\<forall>i j. i < j \<longrightarrow> j < length xs \<longrightarrow> ss_upper (xs ! i) < ss_lower (xs ! j)"
        and ij: "i < j" "j < length xs"
      then have u: "ss_upper (xs ! i) < ss_lower (xs ! j)" by blast
      show "ss_lower (xs ! i) < ss_lower (xs ! j)"
        using le[of i] u ij by simp
      show "ss_upper (xs ! i) < ss_lower (xs ! j) \<or> ss_upper (xs ! j) < ss_lower (xs ! i)"
        using u by simp
    next
      fix i j assume a: "(\<forall>i j. i < j \<longrightarrow> j < length xs \<longrightarrow> ss_lower (xs ! i) < ss_lower (xs ! j)) \<and>
          (\<forall>i j. i < j \<longrightarrow> j < length xs \<longrightarrow>
             ss_upper (xs ! i) < ss_lower (xs ! j) \<or> ss_upper (xs ! j) < ss_lower (xs ! i))"
        and ij: "i < j" "j < length xs"
      then have l: "ss_lower (xs ! i) < ss_lower (xs ! j)"
        and d: "ss_upper (xs ! i) < ss_lower (xs ! j) \<or> ss_upper (xs ! j) < ss_lower (xs ! i)"
        by blast+
      show "ss_upper (xs ! i) < ss_lower (xs ! j)"
        using l d le[of j] ij by auto
    qed
  qed
  then show ?thesis by (auto simp: ranges_ok_def)
qed

lemma nameseq_invariant_iff: "nameseq_invariant nseq \<longleftrightarrow> nameseq_inv nseq"
  using ranges_ok_iff[of "live nseq"]
  by (auto simp: nameseq_invariant_def nameseq_inv_def nameseq_wf_def)

lemma remove_publ_Inr:
  assumes r: "tipc_nameseq_remove_publ net nseq inst node port key = Inr (res, evs, nseq')"
  shows "(res = None \<and> evs = [] \<and> nseq' = nseq) \<or>
         (\<exists>i publ. nameseq_find_subseq nseq inst = Some i \<and> res = Some publ \<and>
            publ \<in> set (all_publ (info (sseqs nseq ! i))) \<and> matches publ node port key \<and>
            evs = withdrawn_reports publ
                    (remove1 publ (all_publ (info (sseqs nseq ! i))) = []) (subscriptions nseq) \<and>
            (if remove1 publ (all_publ (info (sseqs nseq ! i))) = []
             then nseq' = nseq\<lparr>sseqs := memmove (sseqs nseq) i (Suc i) (first_free nseq - Suc i),
                               first_free := first_free nseq - 1\<rparr>
             else \<exists>loc. nseq' = nseq\<lparr>sseqs := (sseqs nseq)[i := (sseqs nseq ! i)\<lparr>info :=
                        \<lparr>local_publ = loc,
                         all_publ = remove1 publ (all_publ (info (sseqs nseq ! i)))\<rparr>\<rparr>]\<rparr>))"
proof (cases "nameseq_find_subseq nseq inst")
  case None
  then show ?thesis using r by (simp add: remove_publ_miss)
next
  case (Some i)
  show ?thesis
  proof (cases "find (\<lambda>publ. matches publ node port key) (all_publ (info (sseqs nseq ! i)))")
    case None
    then show ?thesis using r by (simp add: remove_publ_found[OF Some])
  next
    case sp: (Some publ)
    then have mem: "publ \<in> set (all_publ (info (sseqs nseq ! i)))"
      and ma: "matches publ node port key"
      by (auto simp: find_Some_iff)
    have "res = Some publ"
      and "evs = withdrawn_reports publ
                    (remove1 publ (all_publ (info (sseqs nseq ! i))) = []) (subscriptions nseq)"
      and "nseq' = (if remove1 publ (all_publ (info (sseqs nseq ! i))) = []
                 then nseq\<lparr>sseqs := memmove (sseqs nseq) i (Suc i) (first_free nseq - Suc i),
                           first_free := first_free nseq - 1\<rparr>
                 else nseq\<lparr>sseqs := (sseqs nseq)[i := (sseqs nseq ! i)\<lparr>info :=
                        \<lparr>local_publ = (if in_own_node net node
                                        then remove1 publ (local_publ (info (sseqs nseq ! i)))
                                        else local_publ (info (sseqs nseq ! i))),
                         all_publ = remove1 publ (all_publ (info (sseqs nseq ! i)))\<rparr>\<rparr>]\<rparr>)"
      using r unfolding remove_publ_found[OF Some] sp by (simp_all split: if_splits)
    then show ?thesis using Some mem ma
      by (cases "remove1 publ (all_publ (info (sseqs nseq ! i))) = []") auto
  qed
qed

lemma remove_slot_wf:
  assumes wf: "nameseq_wf nseq" and i: "i < first_free nseq"
  defines "nseq' \<equiv> nseq\<lparr>sseqs := memmove (sseqs nseq) i (Suc i) (first_free nseq - Suc i),
                          first_free := first_free nseq - 1\<rparr>"
  shows "nameseq_wf nseq'" and "Suc (first_free nseq') = first_free nseq"
    and "live nseq' = take i (live nseq) @ drop (Suc i) (live nseq)"
proof -
  have ok: "array_ok nseq" and ro: "ranges_ok (live nseq)"
    using wf by (simp_all add: nameseq_wf_def)
  have len: "first_free nseq \<le> length (sseqs nseq)" using ok by (simp add: array_ok_def)
  show l: "live nseq' = take i (live nseq) @ drop (Suc i) (live nseq)"
    using live_remove_slot[OF i len] by (simp add: live_def nseq'_def)
  show "Suc (first_free nseq') = first_free nseq" using i by (simp add: nseq'_def)
  have "length (memmove (sseqs nseq) i (Suc i) (first_free nseq - Suc i)) = length (sseqs nseq)"
    using i len by (simp add: length_memmove)
  then have "array_ok nseq'" using ok by (auto simp: array_ok_def nseq'_def)
  then show "nameseq_wf nseq'"
    using ranges_ok_remove[OF ro, of i] by (simp add: nameseq_wf_def l)
qed

lemma update_slot_wf:
  assumes wf: "nameseq_wf nseq" and i: "i < first_free nseq"
    and b: "ss_lower s = ss_lower (sseqs nseq ! i)" "ss_upper s = ss_upper (sseqs nseq ! i)"
  shows "nameseq_wf (nseq\<lparr>sseqs := (sseqs nseq)[i := s]\<rparr>)"
    and "live (nseq\<lparr>sseqs := (sseqs nseq)[i := s]\<rparr>) = (live nseq)[i := s]"
proof -
  have ok: "array_ok nseq" and ro: "ranges_ok (live nseq)"
    using wf by (simp_all add: nameseq_wf_def)
  show l: "live (nseq\<lparr>sseqs := (sseqs nseq)[i := s]\<rparr>) = (live nseq)[i := s]"
    by (simp add: live_def take_update_swap)
  have "ranges_ok ((live nseq)[i := s])"
    using ro i b ok by (intro ranges_ok_update) (simp_all add: length_live live_nth)
  then show "nameseq_wf (nseq\<lparr>sseqs := (sseqs nseq)[i := s]\<rparr>)"
    using ok by (simp add: nameseq_wf_def l array_ok_def)
qed

lemma remove_publ_inv:
  assumes inv: "nameseq_inv nseq"
    and r: "tipc_nameseq_remove_publ net nseq inst node port key = Inr (res, evs, nseq')"
  shows "nameseq_inv nseq'"
proof -
  have wf: "nameseq_wf nseq"
    and ne: "list_all (\<lambda>s. all_publ (info s) \<noteq> []) (live nseq)"
    using inv by (simp_all add: nameseq_inv_def)
  from remove_publ_Inr[OF r] show ?thesis
  proof (elim disjE exE conjE)
    assume "nseq' = nseq"
    then show ?thesis using inv by simp
  next
    fix i publ
    assume f: "nameseq_find_subseq nseq inst = Some i"
      and n: "if remove1 publ (all_publ (info (sseqs nseq ! i))) = []
             then nseq' = nseq\<lparr>sseqs := memmove (sseqs nseq) i (Suc i) (first_free nseq - Suc i),
                               first_free := first_free nseq - 1\<rparr>
             else \<exists>loc. nseq' = nseq\<lparr>sseqs := (sseqs nseq)[i := (sseqs nseq ! i)\<lparr>info :=
                        \<lparr>local_publ = loc,
                         all_publ = remove1 publ (all_publ (info (sseqs nseq ! i)))\<rparr>\<rparr>]\<rparr>"
    have i: "i < first_free nseq" using find_subseq_Some[OF f] by simp
    show ?thesis
    proof (cases "remove1 publ (all_publ (info (sseqs nseq ! i))) = []")
      case True
      then have e: "nseq' = nseq\<lparr>sseqs := memmove (sseqs nseq) i (Suc i) (first_free nseq - Suc i),
                               first_free := first_free nseq - 1\<rparr>"
        using n by simp
      note s = remove_slot_wf[OF wf i, folded e]
      have "list_all (\<lambda>s. all_publ (info s) \<noteq> []) (live nseq')"
        using ne by (auto simp: s(3) list_all_iff dest: in_set_takeD in_set_dropD)
      then show ?thesis using s(1) by (simp add: nameseq_inv_def)
    next
      case False
      then obtain loc where e: "nseq' = nseq\<lparr>sseqs := (sseqs nseq)[i := (sseqs nseq ! i)\<lparr>info :=
                        \<lparr>local_publ = loc,
                         all_publ = remove1 publ (all_publ (info (sseqs nseq ! i)))\<rparr>\<rparr>]\<rparr>"
        using n by auto
      note s = update_slot_wf[OF wf i, of "(sseqs nseq ! i)\<lparr>info :=
                        \<lparr>local_publ = loc,
                         all_publ = remove1 publ (all_publ (info (sseqs nseq ! i)))\<rparr>\<rparr>",
                 folded e, simplified]
      have "list_all (\<lambda>s. all_publ (info s) \<noteq> []) (live nseq')"
        using ne False
        by (auto simp: s(2) list_all_iff dest!: set_update_subset_insert[THEN subsetD])
      then show ?thesis using s(1) by (simp add: nameseq_inv_def)
    qed
  qed
qed

lemma remove_last_publ:
  assumes wf: "nameseq_wf nseq"
    and f: "nameseq_find_subseq nseq inst = Some i"
    and one: "length (all_publ (info (sseqs nseq ! i))) = 1"
    and r: "tipc_nameseq_remove_publ net nseq inst node port key = Inr (Some publ, evs, nseq')"
  shows "all_publ (info (sseqs nseq ! i)) = [publ]"
    and "nseq' = nseq\<lparr>sseqs := memmove (sseqs nseq) i (Suc i) (first_free nseq - Suc i),
                       first_free := first_free nseq - 1\<rparr>"
    and "evs = withdrawn_reports publ True (subscriptions nseq)"
proof -
  from remove_publ_Inr[OF r] f
  have mem: "publ \<in> set (all_publ (info (sseqs nseq ! i)))"
    and ev: "evs = withdrawn_reports publ
                    (remove1 publ (all_publ (info (sseqs nseq ! i))) = []) (subscriptions nseq)"
    and n: "if remove1 publ (all_publ (info (sseqs nseq ! i))) = []
             then nseq' = nseq\<lparr>sseqs := memmove (sseqs nseq) i (Suc i) (first_free nseq - Suc i),
                               first_free := first_free nseq - 1\<rparr>
             else \<exists>loc. nseq' = nseq\<lparr>sseqs := (sseqs nseq)[i := (sseqs nseq ! i)\<lparr>info :=
                        \<lparr>local_publ = loc,
                         all_publ = remove1 publ (all_publ (info (sseqs nseq ! i)))\<rparr>\<rparr>]\<rparr>"
    by auto
  obtain q where q: "all_publ (info (sseqs nseq ! i)) = [q]"
    using one by (cases "all_publ (info (sseqs nseq ! i))") auto
  then show a: "all_publ (info (sseqs nseq ! i)) = [publ]" using mem by simp
  then have e: "remove1 publ (all_publ (info (sseqs nseq ! i))) = []" by simp
  show "nseq' = nseq\<lparr>sseqs := memmove (sseqs nseq) i (Suc i) (first_free nseq - Suc i),
                       first_free := first_free nseq - 1\<rparr>"
    using n e by simp
  show "evs = withdrawn_reports publ True (subscriptions nseq)"
    using ev e by simp
qed


subsection \<open>C2: the invariant of a name sequence under insert and remove\<close>

text \<open>The equations with which the examples are computed.\<close>

lemmas eval_defs =
  example_net_def example_sub_def publ_a_def seq_empty_def seq_one_def new_publ_def
  zero_sub_seq_def empty_info_def new_sub_seq_def
  nameseq_find_subseq_def nameseq_locate_subseq_def
  find_subseq_loop_unfold locate_subseq_loop_unfold
  tipc_nameseq_insert_publ_def tipc_nameseq_remove_publ_def ensure_space_def
  tipc_subseq_alloc_def insert_a_publication_def publ_create_def
  memmove_def list_add_def list_del_def list_move_tail_def list_first_entry_def Let_def
  published_reports_def withdrawn_reports_def

lemmas inv_defs =
  nameseq_invariant_def array_ok_def live_def disjoint_def contains_def

text \<open>
  A publication insert that returns a publication, and a publication remove, keep the
  invariant of a name sequence: the slots in use (the first \<open>first_free\<close> slots) are sorted
  strictly ascending by \<open>lower\<close>, their ranges are pairwise disjoint, and the list
  \<open>all_publ\<close> of every slot in use is not empty.  When the remove takes the last
  publication of a slot, the slot is deleted: \<open>first_free\<close> goes down by one and the slots
  above move down.  The insert has \<open>lower \<le> upper\<close>, as its caller
  \<^verbatim>\<open>tipc_nametbl_insert_publ\<close> has checked; the remove is any call that returns.
\<close>

lemma insert_remove_keep_invariant:
  assumes "nameseq_invariant nseq"
  shows "(lower \<le> upper \<and>
          tipc_nameseq_insert_publ net nseq type lower upper scope node port key m =
            (Some publ, evs, nseq', m')
          \<longrightarrow> nameseq_invariant nseq') \<and>
         (tipc_nameseq_remove_publ net nseq inst node2 port2 key2 = Inr (res, evs2, nseq2)
          \<longrightarrow> nameseq_invariant nseq2 \<and>
              (nameseq_find_subseq nseq inst = Some i \<and> res \<noteq> None \<and>
               length (all_publ (info (sseqs nseq ! i))) = 1
               \<longrightarrow> Suc (first_free nseq2) = first_free nseq \<and>
                   live nseq2 = take i (live nseq) @ drop (Suc i) (live nseq)))"
proof (intro conjI impI)
  assume "lower \<le> upper \<and>
          tipc_nameseq_insert_publ net nseq type lower upper scope node port key m =
            (Some publ, evs, nseq', m')"
  then show "nameseq_invariant nseq'"
    using insert_publ_inv[of nseq lower upper net type scope node port key m publ evs nseq' m']
      assms by (simp add: nameseq_invariant_iff)
next
  assume r: "tipc_nameseq_remove_publ net nseq inst node2 port2 key2 = Inr (res, evs2, nseq2)"
  show "nameseq_invariant nseq2"
    using remove_publ_inv[OF _ r] assms by (simp add: nameseq_invariant_iff)
  assume a: "nameseq_find_subseq nseq inst = Some i \<and> res \<noteq> None \<and>
             length (all_publ (info (sseqs nseq ! i))) = 1"
  then obtain q where q: "res = Some q" by auto
  have wf: "nameseq_wf nseq"
    using assms by (simp add: nameseq_invariant_iff nameseq_inv_def)
  have i: "i < first_free nseq" using find_subseq_Some[of nseq inst i] a by simp
  note l = remove_last_publ[OF wf _ _ r[unfolded q], of i]
  note s = remove_slot_wf[OF wf i]
  show "Suc (first_free nseq2) = first_free nseq"
    using l(2) a s(2) by simp
  show "live nseq2 = take i (live nseq) @ drop (Suc i) (live nseq)"
    using l(2) a s(3) by simp
qed

lemma insert_remove_keep_invariant_example:
  "nameseq_invariant seq_empty \<and>
   tipc_nameseq_insert_publ example_net seq_empty 10 5 5 3 0x1001001 100 1 [] =
     (Some publ_a, [Report_overlap example_sub 5 5 TIPC_PUBLISHED 100 0x1001001 3 True],
      seq_one, []) \<and>
   nameseq_invariant seq_one \<and>
   tipc_nameseq_remove_publ example_net seq_one 5 0x1001001 100 1 =
     Inr (Some publ_a, [Report_overlap example_sub 5 5 TIPC_WITHDRAWN 100 0x1001001 3 True],
          seq_one\<lparr>first_free := 0\<rparr>) \<and>
   nameseq_invariant (seq_one\<lparr>first_free := 0\<rparr>) \<and>
   live (seq_one\<lparr>first_free := 0\<rparr>) = []"
proof -
  have i0: "nameseq_invariant seq_empty"
    by (simp add: inv_defs seq_empty_def)
  have e1: "tipc_nameseq_insert_publ example_net seq_empty 10 5 5 3 0x1001001 100 1 [] =
     (Some publ_a, [Report_overlap example_sub 5 5 TIPC_PUBLISHED 100 0x1001001 3 True],
      seq_one, [])"
    by (simp add: eval_defs)
  have i1: "nameseq_invariant seq_one"
    using insert_remove_keep_invariant[OF i0, of 5 5 example_net 10 3 "0x1001001" 100 1
        "[]" publ_a _ seq_one "[]"] e1
    by simp
  have f: "nameseq_find_subseq seq_one 5 = Some 0"
    by (simp add: eval_defs)
  have e2: "tipc_nameseq_remove_publ example_net seq_one 5 0x1001001 100 1 =
     Inr (Some publ_a, [Report_overlap example_sub 5 5 TIPC_WITHDRAWN 100 0x1001001 3 True],
          seq_one\<lparr>first_free := 0\<rparr>)"
    by (simp add: eval_defs)
  have "nameseq_invariant (seq_one\<lparr>first_free := 0\<rparr>) \<and>
        live (seq_one\<lparr>first_free := 0\<rparr>) = []"
    using insert_remove_keep_invariant[OF i1, of _ _ example_net _ _ _ _ _ _ _ _ _ _
        5 "0x1001001" 100 1 "Some publ_a" _ "seq_one\<lparr>first_free := 0\<rparr>" 0] e2 f
    by (simp add: seq_one_def live_def)
  then show ?thesis using i0 e1 i1 e2 by simp
qed

text \<open>
  C2 fails on the code for an insert whose publication cannot be allocated.
  \<^verbatim>\<open>tipc_nameseq_insert_publ\<close> puts the slot of a new range into the array and counts it
  in \<open>first_free\<close> before it calls \<^verbatim>\<open>publ_create\<close>; when that returns NULL the insert
  returns NULL and the slot stays in use with both of its lists empty.  So the insert of
  the range \<open>[5, 5]\<close> into the name sequence without sub-sequences, the \<^verbatim>\<open>name_info\<close>
  allocated and the publication not, leads from a sequence that has the invariant to one
  that has it not: its one slot in use holds no publication.
\<close>

theorem insert_without_publication_breaks_invariant:
  "nameseq_invariant seq_empty \<and>
   tipc_nameseq_insert_publ example_net seq_empty 10 5 5 3 0x1001001 100 1 [True, False] =
     (None, [], seq_unfilled, []) \<and>
   live seq_unfilled = [new_sub_seq 5 5] \<and>
   all_publ (info (new_sub_seq 5 5)) = [] \<and>
   \<not> nameseq_invariant seq_unfilled"
proof -
  have i0: "nameseq_invariant seq_empty"
    by (simp add: inv_defs seq_empty_def)
  have e: "tipc_nameseq_insert_publ example_net seq_empty 10 5 5 3 0x1001001 100 1 [True, False] =
     (None, [], seq_unfilled, [])"
    by (simp add: eval_defs seq_unfilled_def)
  have l: "live seq_unfilled = [new_sub_seq 5 5]"
    by (simp add: live_def seq_unfilled_def)
  have a: "all_publ (info (new_sub_seq 5 5)) = []"
    by (simp add: new_sub_seq_def empty_info_def)
  have n: "\<not> nameseq_invariant seq_unfilled"
    by (simp add: nameseq_invariant_def l a)
  show ?thesis using i0 e l a n by simp
qed

theorem insert_without_publication_breaks_invariant_witness:
  "fst (tipc_nameseq_insert_publ example_net seq_empty 10 5 5 3 0x1001001 100 1 [True, False]) =
     None \<and>
   first_free seq_empty = 0 \<and> first_free seq_unfilled = 1 \<and>
   list_ex (\<lambda>s. all_publ (info s) = []) (live seq_unfilled)"
  using insert_without_publication_breaks_invariant
  by (simp add: seq_empty_def seq_unfilled_def)

subsection \<open>C8: withdrawing the last publication of a sub-sequence\<close>



subsection \<open>C7: the reports of a new subscription\<close>

lemma report_publs_False:
  "report_publs sub sseq False ps =
     map (\<lambda>crs. Report_overlap sub (ss_lower sseq) (ss_upper sseq) TIPC_PUBLISHED
                   (p_port crs) (p_node crs) (p_scope crs) False) ps"
  by (induction ps) simp_all

lemma report_publs_snapshot:
  "report_publs sub sseq True (all_publ (info sseq)) = snapshot_reports sub sseq"
  by (cases "all_publ (info sseq)") (simp_all add: snapshot_reports_def report_publs_False)

lemma subscribe_scan_concat:
  "subscribe_scan sub ns xs =
     concat (map (snapshot_reports sub)
       (filter (\<lambda>sseq. tipc_sub_check_overlap ns (ss_lower sseq) (ss_upper sseq)) xs))"
  by (induction xs) (simp_all add: report_publs_snapshot)

text \<open>
  C7.  A subscription whose filter does not have the bit \<^verbatim>\<open>TIPC_SUB_NO_STATUS\<close> is put on
  the list of the name sequence, and gets, for every sub-sequence in use whose range
  overlaps the range it asks for, in array order, one PUBLISHED report per publication of
  that sub-sequence's \<open>all_publ\<close>, the flag \<open>must_report\<close> true in the first report of each
  sub-sequence and false in the later ones.  With two publications in one overlapping
  sub-sequence these are exactly two reports, the flag true and then false.
\<close>

theorem subscribe_reports:
  assumes "s_filter sub AND TIPC_SUB_NO_STATUS net = 0"
  shows "tipc_nameseq_subscribe net nseq sub =
           (concat (map (snapshot_reports sub)
              (filter (\<lambda>sseq. tipc_sub_check_overlap (sub_range sub) (ss_lower sseq) (ss_upper sseq))
                 (live nseq))),
            nseq\<lparr>subscriptions := sub # subscriptions nseq\<rparr>) \<and>
         (live nseq = [sseq] \<and> all_publ (info sseq) = [p1, p2] \<and>
          tipc_sub_check_overlap (sub_range sub) (ss_lower sseq) (ss_upper sseq)
          \<longrightarrow> fst (tipc_nameseq_subscribe net nseq sub) =
                [Report_overlap sub (ss_lower sseq) (ss_upper sseq) TIPC_PUBLISHED
                   (p_port p1) (p_node p1) (p_scope p1) True,
                 Report_overlap sub (ss_lower sseq) (ss_upper sseq) TIPC_PUBLISHED
                   (p_port p2) (p_node p2) (p_scope p2) False])"
proof -
  have e: "tipc_nameseq_subscribe net nseq sub =
           (concat (map (snapshot_reports sub)
              (filter (\<lambda>sseq. tipc_sub_check_overlap (sub_range sub) (ss_lower sseq) (ss_upper sseq))
                 (live nseq))),
            nseq\<lparr>subscriptions := sub # subscriptions nseq\<rparr>)"
    using assms
    by (simp add: tipc_nameseq_subscribe_def Let_def subscribe_scan_concat sub_range_def
        live_def list_add_def)
  show ?thesis unfolding e by (simp add: snapshot_reports_def)
qed

theorem subscribe_reports_witness:
  "s_filter example_sub AND TIPC_SUB_NO_STATUS example_net = 0 \<and>
   live seq_two = [sseqs seq_two ! 0] \<and>
   all_publ (info (sseqs seq_two ! 0)) = [publ_b, publ_a] \<and>
   tipc_sub_check_overlap (sub_range example_sub) 5 5 \<and>
   tipc_nameseq_subscribe example_net seq_two example_sub =
     ([Report_overlap example_sub 5 5 TIPC_PUBLISHED 200 0x1001002 3 True,
       Report_overlap example_sub 5 5 TIPC_PUBLISHED 100 0x1001001 3 False],
      seq_two\<lparr>subscriptions := [example_sub]\<rparr>)"
proof -
  have f: "s_filter example_sub AND TIPC_SUB_NO_STATUS example_net = 0"
    by (simp add: example_sub_def example_net_def)
  have o: "tipc_sub_check_overlap (sub_range example_sub) 5 5"
    by (simp add: tipc_sub_check_overlap_def sub_range_def example_sub_def)
  have l: "live seq_two = [sseqs seq_two ! 0]"
    and a: "all_publ (info (sseqs seq_two ! 0)) = [publ_b, publ_a]"
    by (simp_all add: live_def seq_two_def)
  show ?thesis
    using subscribe_reports[OF f, of seq_two "sseqs seq_two ! 0" publ_b publ_a] f o l a
    by (simp add: seq_two_def publ_a_def publ_b_def new_publ_def snapshot_reports_def
        tipc_sub_check_overlap_def sub_range_def example_sub_def live_def)
qed

subsection \<open>C10: what the lookup counts\<close>

lemma lookup_scan_all:
  "lookup_scan self scope exclude True ps dsts cnt m = (st, dsts', cnt', m') \<Longrightarrow>
     st = None \<and> cnt' = cnt + int (length (filter (acceptable self scope exclude) ps))"
proof (induction ps arbitrary: dsts cnt m)
  case Nil
  then show ?case by simp
next
  case (Cons publ ps)
  show ?case
  proof (cases "acceptable self scope exclude publ")
    case False
    then have "lookup_scan self scope exclude True ps dsts cnt m = (st, dsts', cnt', m')"
      using Cons.prems by (auto simp: acceptable_def split: if_splits)
    then show ?thesis using Cons.IH False by simp
  next
    case True
    obtain pushed d1 m1 where p: "tipc_dest_push dsts (p_node publ) (p_port publ) m = (pushed, d1, m1)"
      by (cases "tipc_dest_push dsts (p_node publ) (p_port publ) m") auto
    have "lookup_scan self scope exclude True ps d1 (cnt + 1) m1 = (st, dsts', cnt', m')"
      using Cons.prems True p by (auto simp: acceptable_def)
    then show ?thesis using Cons.IH[of d1 "cnt + 1" m1] True by simp
  qed
qed

lemma lookup_scan_first:
  "lookup_scan self scope exclude False ps dsts cnt m =
     (case find (acceptable self scope exclude) ps of
        None \<Rightarrow> (None, dsts, cnt, m)
      | Some publ \<Rightarrow>
          (case tipc_dest_push dsts (p_node publ) (p_port publ) m of
             (pushed, dsts', m') \<Rightarrow> (Some publ, dsts', cnt + 1, m')))"
  by (induction ps) (auto simp: acceptable_def)

lemma lookup_found:
  assumes "nametbl_find_seq tbl type = Some seq" "nameseq_find_subseq seq inst = Some i"
  shows "tipc_nametbl_lookup net tbl type inst scope dsts exclude all m =
     (case lookup_scan (own_addr net) scope exclude all (all_publ (info (sseqs seq ! i))) dsts 0 m of
        (stopped, dsts', dstcnt, m') \<Rightarrow>
          (dsts' \<noteq> [], dsts', dstcnt,
           (case stopped of
              None \<Rightarrow> tbl
            | Some publ \<Rightarrow>
                nametbl_store tbl
                  (seq\<lparr>sseqs := (sseqs seq)[i := (sseqs seq ! i)\<lparr>info :=
                     (info (sseqs seq ! i))\<lparr>all_publ :=
                        list_move_tail publ (all_publ (info (sseqs seq ! i)))\<rparr>\<rparr>]\<rparr>)),
           m'))"
  by (simp add: tipc_nametbl_lookup_def assms Let_def split: prod.splits option.splits)

text \<open>
  C10 (as amended).  With \<open>all\<close> true, \<^verbatim>\<open>tipc_nametbl_lookup\<close> leaves in \<^verbatim>\<open>*dstcnt\<close> the
  number of publications of the sub-sequence's \<open>all_publ\<close> whose scope is the scope asked
  for and which are not the caller's own excluded (port, node): it counts each of them
  once, whatever the destination list holds already and whether or not \<^verbatim>\<open>tipc_dest_push\<close>
  adds an entry.  So the count can exceed the length of the list returned: two
  publications of the same (node, port) give the count 2 and a list of one entry.  With
  \<open>all\<close> false the loop stops at the first such publication: the count is 1 when there is
  one, also when its destination is in the list already and nothing is added, and 0 when
  there is none.
\<close>

theorem lookup_dstcnt_counts:
  assumes "nametbl_find_seq tbl type = Some seq" "nameseq_find_subseq seq inst = Some i"
  shows "lookup_dstcnt (tipc_nametbl_lookup net tbl type inst scope dsts exclude True m) =
           int (length (filter (acceptable (own_addr net) scope exclude)
                          (all_publ (info (sseqs seq ! i))))) \<and>
         lookup_dstcnt (tipc_nametbl_lookup net tbl type inst scope dsts exclude False m) =
           (if list_ex (acceptable (own_addr net) scope exclude) (all_publ (info (sseqs seq ! i)))
            then 1 else 0) \<and>
         lookup_dstcnt (tipc_nametbl_lookup example_net (table_of seq_same_port) 10 5 3 [] 0 True [])
           = 2 \<and>
         lookup_dsts (tipc_nametbl_lookup example_net (table_of seq_same_port) 10 5 3 [] 0 True [])
           = [dest_value 0x1001002 200] \<and>
         lookup_dstcnt (tipc_nametbl_lookup example_net (table_of seq_same_port) 10 5 3
                          [dest_value 0x1001002 200] 0 False []) = 1 \<and>
         lookup_dsts (tipc_nametbl_lookup example_net (table_of seq_same_port) 10 5 3
                          [dest_value 0x1001002 200] 0 False []) = [dest_value 0x1001002 200]"
proof -
  obtain st d c m' where s: "lookup_scan (own_addr net) scope exclude True
       (all_publ (info (sseqs seq ! i))) dsts 0 m = (st, d, c, m')"
    by (cases "lookup_scan (own_addr net) scope exclude True
       (all_publ (info (sseqs seq ! i))) dsts 0 m") auto
  have g: "lookup_dstcnt (tipc_nametbl_lookup net tbl type inst scope dsts exclude True m) =
           int (length (filter (acceptable (own_addr net) scope exclude)
                          (all_publ (info (sseqs seq ! i)))))"
    using lookup_scan_all[OF s] by (simp add: lookup_found[OF assms] s lookup_dstcnt_def)
  have h: "lookup_dstcnt (tipc_nametbl_lookup net tbl type inst scope dsts exclude False m) =
           (if list_ex (acceptable (own_addr net) scope exclude) (all_publ (info (sseqs seq ! i)))
            then 1 else 0)"
  proof (cases "find (acceptable (own_addr net) scope exclude) (all_publ (info (sseqs seq ! i)))")
    case None
    then have "\<not> list_ex (acceptable (own_addr net) scope exclude)
                 (all_publ (info (sseqs seq ! i)))"
      by (simp add: find_None_iff list_ex_iff)
    then show ?thesis
      by (simp add: lookup_found[OF assms] lookup_scan_first None lookup_dstcnt_def)
  next
    case (Some publ)
    then have "list_ex (acceptable (own_addr net) scope exclude)
                 (all_publ (info (sseqs seq ! i)))"
      by (auto simp: find_Some_iff list_ex_iff)
    then show ?thesis
      by (simp add: lookup_found[OF assms] lookup_scan_first Some lookup_dstcnt_def
          split: prod.splits)
  qed
  have f1: "nametbl_find_seq (table_of seq_same_port) 10 = Some seq_same_port"
    by (simp add: nametbl_find_seq_def table_of_def seq_same_port_def hash_def)
  have f2: "nameseq_find_subseq seq_same_port 5 = Some 0"
    by (simp add: nameseq_find_subseq_def seq_same_port_def find_subseq_loop_unfold)
  have e: "lookup_scan (own_addr example_net) 3 0 True
        (all_publ (info (sseqs seq_same_port ! 0))) [] 0 [] =
        (None, [dest_value 0x1001002 200], 2, [])"
    by (simp add: seq_same_port_def publ_b_def new_publ_def example_net_def tipc_dest_push_def
        tipc_dest_find_def list_add_def)
  have e': "lookup_scan (own_addr example_net) 3 0 False
        (all_publ (info (sseqs seq_same_port ! 0))) [dest_value 0x1001002 200] 0 [] =
        (Some (new_publ 10 5 5 3 0x1001002 200 3), [dest_value 0x1001002 200], 1, [])"
    by (simp add: seq_same_port_def publ_b_def new_publ_def example_net_def tipc_dest_push_def
        tipc_dest_find_def list_add_def)
  have x: "lookup_dstcnt (tipc_nametbl_lookup example_net (table_of seq_same_port) 10 5 3 [] 0
             True []) = 2"
    "lookup_dsts (tipc_nametbl_lookup example_net (table_of seq_same_port) 10 5 3 [] 0 True [])
           = [dest_value 0x1001002 200]"
    by (simp_all add: lookup_found[OF f1 f2] e lookup_dstcnt_def lookup_dsts_def)
  have y: "lookup_dstcnt (tipc_nametbl_lookup example_net (table_of seq_same_port) 10 5 3
                          [dest_value 0x1001002 200] 0 False []) = 1"
    "lookup_dsts (tipc_nametbl_lookup example_net (table_of seq_same_port) 10 5 3
                          [dest_value 0x1001002 200] 0 False []) = [dest_value 0x1001002 200]"
    by (simp_all add: lookup_found[OF f1 f2] e' lookup_dstcnt_def lookup_dsts_def)
  show ?thesis using g h x y by simp
qed

theorem lookup_dstcnt_counts_witness:
  "nametbl_find_seq (table_of seq_two) 10 = Some seq_two \<and>
   nameseq_find_subseq seq_two 5 = Some 0 \<and>
   lookup_dstcnt (tipc_nametbl_lookup example_net (table_of seq_two) 10 5 3 [] 0 True []) = 2 \<and>
   lookup_dstcnt (tipc_nametbl_lookup example_net (table_of seq_two) 10 5 3 [] 0 False []) = 1 \<and>
   lookup_dstcnt (tipc_nametbl_lookup example_net (table_of seq_two) 10 5 2 [] 0 False []) = 0"
proof -
  have f1: "nametbl_find_seq (table_of seq_two) 10 = Some seq_two"
    by (simp add: nametbl_find_seq_def table_of_def seq_two_def hash_def)
  have f2: "nameseq_find_subseq seq_two 5 = Some 0"
    by (simp add: nameseq_find_subseq_def seq_two_def find_subseq_loop_unfold)
  show ?thesis
    using lookup_dstcnt_counts[OF f1 f2, of example_net 3 "[]" 0 "[]"]
      lookup_dstcnt_counts[OF f1 f2, of example_net 2 "[]" 0 "[]"] f1 f2
    by (simp add: seq_two_def publ_a_def publ_b_def new_publ_def acceptable_def example_net_def)
qed

text \<open>
  The claim as it stands fails with \<open>all\<close> false: of the two publications of \<open>seq_two\<close>,
  both of the scope asked for and neither excluded, the lookup counts one.
\<close>

theorem lookup_single_counts_one:
  "nametbl_find_seq (table_of seq_two) 10 = Some seq_two \<and>
   nameseq_find_subseq seq_two 5 = Some 0 \<and>
   length (filter (acceptable (own_addr example_net) 3 0)
             (all_publ (info (sseqs seq_two ! 0)))) = 2 \<and>
   lookup_dstcnt (tipc_nametbl_lookup example_net (table_of seq_two) 10 5 3 [] 0 False []) = 1"
proof -
  have f1: "nametbl_find_seq (table_of seq_two) 10 = Some seq_two"
    by (simp add: nametbl_find_seq_def table_of_def seq_two_def hash_def)
  have f2: "nameseq_find_subseq seq_two 5 = Some 0"
    by (simp add: nameseq_find_subseq_def seq_two_def find_subseq_loop_unfold)
  have a: "length (filter (acceptable (own_addr example_net) 3 0)
             (all_publ (info (sseqs seq_two ! 0)))) = 2"
    by (simp add: seq_two_def publ_a_def publ_b_def new_publ_def acceptable_def example_net_def)
  have e: "lookup_scan (own_addr example_net) 3 0 False
        (all_publ (info (sseqs seq_two ! 0))) [] 0 [] =
        (Some publ_b, [dest_value 0x1001002 200], 1, [])"
    by (simp add: seq_two_def publ_a_def publ_b_def new_publ_def example_net_def
        tipc_dest_push_def tipc_dest_find_def list_add_def)
  have "lookup_dstcnt (tipc_nametbl_lookup example_net (table_of seq_two) 10 5 3 [] 0 False [])
        = 1"
    by (simp add: lookup_found[OF f1 f2] e lookup_dstcnt_def)
  then show ?thesis using f1 f2 a by simp
qed

subsection \<open>C6: which publication the translation selects\<close>

lemma translate_found:
  assumes "tipc_in_scope net destnode (own_addr net)"
    "nametbl_find_seq tbl type = Some seq" "nameseq_find_subseq seq inst = Some i"
  shows "tipc_nametbl_translate net tbl type inst destnode =
     (case translate_select net (info (sseqs seq ! i)) destnode of
        Inl f \<Rightarrow> Inl f
      | Inr None \<Rightarrow> Inr (0, 0, tbl)
      | Inr (Some (publ, ninfo')) \<Rightarrow>
          Inr (p_port publ, p_node publ,
               nametbl_store tbl (seq\<lparr>sseqs := (sseqs seq)[i := (sseqs seq ! i)\<lparr>info := ninfo'\<rparr>]\<rparr>)))"
  by (simp add: tipc_nametbl_translate_def assms Let_def)

lemma select_local_Cons:
  "local_publ ninfo = p # ps \<Longrightarrow>
     select_local ninfo = Inr (Some (p, ninfo\<lparr>local_publ := ps @ [p]\<rparr>))"
  by (simp add: select_local_def list_first_entry_def list_move_tail_def)

lemma select_all_Cons:
  "all_publ ninfo = p # ps \<Longrightarrow>
     select_all ninfo = Inr (Some (p, ninfo\<lparr>all_publ := ps @ [p]\<rparr>))"
  by (simp add: select_all_def list_first_entry_def list_move_tail_def)

text \<open>
  C6.  In the sub-sequence found, \<^verbatim>\<open>tipc_nametbl_translate\<close> with \<open>destnode = 0\<close> selects
  the head of \<open>local_publ\<close> whenever that list is not empty, and otherwise the head of
  \<open>all_publ\<close>; the entry selected is moved to the tail of the list it came from.  With
  \<open>destnode\<close> this node's own address (an address other than 0, which is the case before)
  it selects the head of \<open>local_publ\<close>, and when that list is empty it returns port 0 and
  writes 0 to \<open>destnode\<close>, whatever \<open>all_publ\<close> holds.  The domain test
  \<^verbatim>\<open>tipc_in_scope\<close> lets the values 0 and own address of \<open>destnode\<close> pass.
\<close>

theorem translate_selection:
  assumes "nametbl_find_seq tbl type = Some seq" "nameseq_find_subseq seq inst = Some i"
    and "tipc_in_scope net 0 (own_addr net)"
    and "tipc_in_scope net (own_addr net) (own_addr net)"
  shows "(local_publ (info (sseqs seq ! i)) = p # ps \<longrightarrow>
            tipc_nametbl_translate net tbl type inst 0 =
              Inr (p_port p, p_node p,
                   nametbl_store tbl (seq\<lparr>sseqs := (sseqs seq)[i := (sseqs seq ! i)\<lparr>info :=
                      (info (sseqs seq ! i))\<lparr>local_publ := ps @ [p]\<rparr>\<rparr>]\<rparr>))) \<and>
         (local_publ (info (sseqs seq ! i)) = [] \<and> all_publ (info (sseqs seq ! i)) = p # ps \<longrightarrow>
            tipc_nametbl_translate net tbl type inst 0 =
              Inr (p_port p, p_node p,
                   nametbl_store tbl (seq\<lparr>sseqs := (sseqs seq)[i := (sseqs seq ! i)\<lparr>info :=
                      (info (sseqs seq ! i))\<lparr>all_publ := ps @ [p]\<rparr>\<rparr>]\<rparr>))) \<and>
         (own_addr net \<noteq> 0 \<and> local_publ (info (sseqs seq ! i)) = p # ps \<longrightarrow>
            tipc_nametbl_translate net tbl type inst (own_addr net) =
              Inr (p_port p, p_node p,
                   nametbl_store tbl (seq\<lparr>sseqs := (sseqs seq)[i := (sseqs seq ! i)\<lparr>info :=
                      (info (sseqs seq ! i))\<lparr>local_publ := ps @ [p]\<rparr>\<rparr>]\<rparr>))) \<and>
         (own_addr net \<noteq> 0 \<and> local_publ (info (sseqs seq ! i)) = [] \<longrightarrow>
            tipc_nametbl_translate net tbl type inst (own_addr net) = Inr (0, 0, tbl))"
  by (simp add: translate_found[OF assms(3) assms(1,2)] translate_found[OF assms(4) assms(1,2)]
      translate_select_def select_local_Cons select_all_Cons)

subsection \<open>The hash chains\<close>

lemma find_seq_type: "nametbl_find_seq tbl type = Some seq \<Longrightarrow> ns_type seq = type"
  by (auto simp: nametbl_find_seq_def find_Some_iff)

lemma hlist_store_found:
  "find (\<lambda>ns. ns_type ns = ns_type seq) chain \<noteq> None \<Longrightarrow>
     find (\<lambda>ns. ns_type ns = ns_type seq) (hlist_store seq chain) = Some seq"
  by (induction chain) auto

lemma hlist_store_same:
  "find (\<lambda>ns. ns_type ns = ns_type seq) chain = Some seq \<Longrightarrow> hlist_store seq chain = chain"
  by (induction chain) (auto split: if_splits)


lemma find_seq_store:
  assumes "nametbl_find_seq tbl (ns_type seq) \<noteq> None"
  shows "nametbl_find_seq (nametbl_store tbl seq) (ns_type seq) = Some seq"
  using assms hlist_store_found[of seq "seq_hlist tbl (hash (ns_type seq))"]
  by (simp add: nametbl_find_seq_def nametbl_store_def)

lemma nametbl_store_same:
  assumes "nametbl_find_seq tbl (ns_type seq) = Some seq"
  shows "nametbl_store tbl seq = tbl"
  using assms hlist_store_same[of seq "seq_hlist tbl (hash (ns_type seq))"]
  by (simp add: nametbl_find_seq_def nametbl_store_def)


lemma find_seq_table_of: "nametbl_find_seq (table_of seq) (ns_type seq) = Some seq"
  by (simp add: nametbl_find_seq_def table_of_def)

lemma nametbl_store_table_of:
  "ns_type seq' = ns_type seq \<Longrightarrow> nametbl_store (table_of seq) seq' = table_of seq'"
  by (simp add: nametbl_store_def table_of_def)

lemma nametbl_unlink_table_of: "nametbl_unlink (table_of seq) (ns_type seq) = tipc_nametbl_init"
  by (simp add: nametbl_unlink_def table_of_def tipc_nametbl_init_def fun_upd_idem)

lemma find_seq_init: "nametbl_find_seq tipc_nametbl_init type = None"
  by (simp add: nametbl_find_seq_def tipc_nametbl_init_def)

lemma range_seq_simps [simp]:
  "ns_type (range_seq type lower upper loc all) = type"
  "first_free (range_seq type lower upper loc all) = 1"
  "subscriptions (range_seq type lower upper loc all) = []"
  "sseqs (range_seq type lower upper loc all) ! 0 =
     \<lparr>ss_lower = lower, ss_upper = upper, info = \<lparr>local_publ = loc, all_publ = all\<rparr>\<rparr>"
  by (simp_all add: range_seq_def)

lemma find_subseq_range_seq:
  assumes "lower \<le> inst" "inst \<le> upper"
  shows "nameseq_find_subseq (range_seq type lower upper loc all) inst = Some 0"
proof -
  have "\<not> inst < lower" "\<not> upper < inst" using assms by (simp_all add: not_less)
  then show ?thesis
    by (simp add: nameseq_find_subseq_def range_seq_def find_subseq_loop_unfold[of _ _ 0 0])
qed

lemma range_seq_update:
  "(range_seq type lower upper loc all)\<lparr>sseqs := (sseqs (range_seq type lower upper loc all))
       [0 := (sseqs (range_seq type lower upper loc all) ! 0)\<lparr>info := ninfo\<rparr>]\<rparr> =
   range_seq type lower upper (local_publ ninfo) (all_publ ninfo)"
  by (simp add: range_seq_def)

subsection \<open>C6: the examples\<close>

theorem translate_selection_witness:
  "tipc_nametbl_translate example_net (table_of seq_two) 10 5 0 =
     Inr (100, 0x1001001, table_of seq_two) \<and>
   tipc_nametbl_translate example_net (table_of seq_two) 10 5 0x1001001 =
     Inr (100, 0x1001001, table_of seq_two) \<and>
   tipc_nametbl_translate example_net (table_of seq_same_port) 10 5 0 =
     Inr (200, 0x1001002,
          table_of (range_seq 10 5 5 [] [publ_b, new_publ 10 5 5 3 0x1001002 200 3])) \<and>
   tipc_nametbl_translate example_net (table_of seq_same_port) 10 5 0x1001001 =
     Inr (0, 0, table_of seq_same_port)"
proof -
  have s0: "tipc_in_scope example_net 0 (own_addr example_net)"
    and s1: "tipc_in_scope example_net (own_addr example_net) (own_addr example_net)"
    by (simp_all add: example_net_def)
  have two: "seq_two = range_seq 10 5 5 [publ_a] [publ_b, publ_a]"
    and same: "seq_same_port = range_seq 10 5 5 [] [new_publ 10 5 5 3 0x1001002 200 3, publ_b]"
    by (simp_all add: seq_two_def seq_same_port_def range_seq_def)
  have f1: "nametbl_find_seq (table_of seq_two) 10 = Some seq_two"
    using find_seq_table_of[of seq_two] by (simp add: two)
  have f2: "nameseq_find_subseq seq_two 5 = Some 0"
    by (simp add: two find_subseq_range_seq)
  have g1: "nametbl_find_seq (table_of seq_same_port) 10 = Some seq_same_port"
    using find_seq_table_of[of seq_same_port] by (simp add: same)
  have g2: "nameseq_find_subseq seq_same_port 5 = Some 0"
    by (simp add: same find_subseq_range_seq)
  have own: "own_addr example_net = 0x1001001" by (simp add: example_net_def)
  note a = translate_selection[OF f1 f2 s0 s1, of publ_a "[]", unfolded two own]
  note b = translate_selection[OF g1 g2 s0 s1, of "new_publ 10 5 5 3 0x1001002 200 3" "[publ_b]",
      unfolded same own]
  show ?thesis
    using a b
    by (simp add: two same nametbl_store_table_of range_seq_def publ_a_def new_publ_def)
qed

subsection \<open>Publishing into the empty table\<close>

lemma find_subseq_fresh: "nameseq_find_subseq (fresh_seq type) inst = None"
  by (simp add: nameseq_find_subseq_def fresh_seq_def find_subseq_loop_unfold)

lemma locate_subseq_fresh: "nameseq_locate_subseq (fresh_seq type) inst = 0"
  by (simp add: nameseq_locate_subseq_def fresh_seq_def locate_subseq_loop_unfold)

lemma nameseq_create_cases:
  "tipc_nameseq_create type chain m =
     (case kmalloc m of (nseq_ok, m1) \<Rightarrow>
      case kmalloc m1 of (sseq_ok, m2) \<Rightarrow>
        if nseq_ok \<and> sseq_ok then (Some (fresh_seq type), fresh_seq type # chain, m2)
        else (None, chain, m2))"
  by (auto simp: tipc_nameseq_create_def tipc_subseq_alloc_def fresh_seq_def Let_def
      split: prod.splits)

lemma insert_into_fresh:
  "tipc_nameseq_insert_publ net (fresh_seq type) type lower upper scope node port key m =
     (case kmalloc m of (info_ok, m2) \<Rightarrow>
        if \<not> info_ok then (None, [], fresh_seq type, m2)
        else insert_a_publication net (range_seq type lower upper [] []) 0 True
               type lower upper scope node port key m2)"
  unfolding insert_publ_new[OF find_subseq_fresh] locate_subseq_fresh
  by (simp add: Let_def ensure_space_def fresh_seq_def memmove_def new_sub_seq_def
      empty_info_def range_seq_def zero_sub_seq_def split: prod.splits)

lemma insert_a_publication_range_seq:
  "insert_a_publication net (range_seq type lower upper loc all) 0 created
       type lower upper scope node port key m =
     (case kmalloc m of (ok, m') \<Rightarrow>
        if \<not> ok then (None, [], range_seq type lower upper loc all, m')
        else (Some (new_publ type lower upper scope node port key), [],
              range_seq type lower upper
                (if in_own_node net node then new_publ type lower upper scope node port key # loc
                 else loc)
                (new_publ type lower upper scope node port key # all), m'))"
  by (simp add: insert_a_publication_def publ_create_def new_publ_def range_seq_def list_add_def
      Let_def split: prod.splits)

lemma publish_into_empty_unfold:
  assumes "scope \<le> TIPC_NODE_SCOPE net" "lower \<le> upper"
  shows "tipc_nametbl_insert_publ net tipc_nametbl_init type lower upper scope node port key m =
     (case kmalloc m of (nseq_ok, m1) \<Rightarrow>
      case kmalloc m1 of (sseq_ok, m2) \<Rightarrow>
        if \<not> (nseq_ok \<and> sseq_ok) then (None, [], tipc_nametbl_init, m2)
        else
          (case kmalloc m2 of (info_ok, m3) \<Rightarrow>
             if \<not> info_ok then (None, [], table_of (fresh_seq type), m3)
             else
               (case kmalloc m3 of (publ_ok, m4) \<Rightarrow>
                  if \<not> publ_ok then (None, [], table_of (range_seq type lower upper [] []), m4)
                  else (Some (new_publ type lower upper scope node port key), [],
                        table_of (range_seq type lower upper
                          (if in_own_node net node
                           then [new_publ type lower upper scope node port key] else [])
                          [new_publ type lower upper scope node port key]), m4))))"
proof -
  have v: "\<not> (TIPC_NODE_SCOPE net < scope \<or> upper < lower)"
    using assms by (simp add: not_less)
  have t: "tipc_nametbl_init\<lparr>seq_hlist := (seq_hlist tipc_nametbl_init)
               (hash type := [fresh_seq type])\<rparr> = table_of (fresh_seq type)"
    by (simp add: tipc_nametbl_init_def table_of_def fresh_seq_def)
  have c: "seq_hlist tipc_nametbl_init (hash type) = []"
    by (simp add: tipc_nametbl_init_def)
  have i: "tipc_nametbl_init\<lparr>seq_hlist := (seq_hlist tipc_nametbl_init)(hash type := [])\<rparr> =
           tipc_nametbl_init"
    by (simp add: tipc_nametbl_init_def fun_upd_idem)
  have s: "nametbl_store (table_of (fresh_seq type)) (range_seq type lower upper loc all) =
           table_of (range_seq type lower upper loc all)" for loc all
    by (rule nametbl_store_table_of) (simp add: fresh_seq_def)
  have s0: "nametbl_store (table_of (fresh_seq type)) (fresh_seq type) = table_of (fresh_seq type)"
    by (rule nametbl_store_table_of) simp
  show ?thesis
    unfolding tipc_nametbl_insert_publ_def Let_def find_seq_init
    using v
    by (simp add: nameseq_create_cases c t i insert_into_fresh insert_a_publication_range_seq
        s s0 split: prod.splits)
qed

lemma publish_into_empty:
  assumes "scope \<le> TIPC_NODE_SCOPE net" "lower \<le> upper"
    and "tipc_nametbl_insert_publ net tipc_nametbl_init type lower upper scope node port key m =
           (Some publ, evs, tbl, m')"
  shows "publ = new_publ type lower upper scope node port key \<and> evs = [] \<and>
         tbl = table_of (range_seq type lower upper
                           (if in_own_node net node then [publ] else []) [publ])"
  using assms(3) unfolding publish_into_empty_unfold[OF assms(1,2)]
  by (auto split: prod.splits if_splits)

lemma translate_range_seq_local:
  assumes "tipc_in_scope net 0 (own_addr net)" "lower \<le> inst" "inst \<le> upper"
  shows "tipc_nametbl_translate net (table_of (range_seq type lower upper [p] all)) type inst 0 =
           Inr (p_port p, p_node p, table_of (range_seq type lower upper [p] all))"
proof -
  have f: "nametbl_find_seq (table_of (range_seq type lower upper [p] all)) type =
           Some (range_seq type lower upper [p] all)"
    using find_seq_table_of[of "range_seq type lower upper [p] all"] by simp
  show ?thesis
    unfolding translate_found[OF assms(1) f find_subseq_range_seq[OF assms(2,3)]]
    by (simp add: translate_select_def select_local_Cons nametbl_store_table_of range_seq_def)
qed

lemma withdraw_range_seq_last:
  assumes "in_own_node net node" "p_key p = key" "p_port p = port" "p_node p = node"
    "lower \<le> inst" "inst \<le> upper"
  shows "tipc_nametbl_remove_publ net (table_of (range_seq type lower upper [p] [p]))
           type inst node port key = Inr (Some p, [], tipc_nametbl_init)"
proof -
  have f: "nametbl_find_seq (table_of (range_seq type lower upper [p] [p])) type =
           Some (range_seq type lower upper [p] [p])"
    using find_seq_table_of[of "range_seq type lower upper [p] [p]"] by simp
  have m: "matches p node port key" using assms by (simp add: matches_def)
  have r: "tipc_nameseq_remove_publ net (range_seq type lower upper [p] [p]) inst node port key =
           Inr (Some p, [], (range_seq type lower upper [p] [p])
                  \<lparr>sseqs := memmove (sseqs (range_seq type lower upper [p] [p])) 0 (Suc 0)
                               (first_free (range_seq type lower upper [p] [p]) - Suc 0),
                   first_free := first_free (range_seq type lower upper [p] [p]) - 1\<rparr>)"
    unfolding remove_publ_found[OF find_subseq_range_seq[OF assms(5,6)]]
    using m assms(1) by (simp add: withdrawn_reports_def)
  show ?thesis
    using nametbl_unlink_table_of[of "range_seq type lower upper [p] [p]"]
    by (simp add: tipc_nametbl_remove_publ_def f r)
qed

subsection \<open>C1: publish, translate, withdraw\<close>

text \<open>
  C1.  A publication of this node with valid arguments (\<open>lower \<le> upper\<close>, a scope up to
  \<^verbatim>\<open>TIPC_NODE_SCOPE\<close>) that \<^verbatim>\<open>tipc_nametbl_insert_publ\<close> enters into the empty table is what
  the translation of its type, any instance of \<open>[lower, upper]\<close> and \<open>destnode = 0\<close>
  returns next: its port and this node.  In the scenario of the specification, the
  publication (type 10, lower 5, upper 5, this node, port 100, key 1) is translated to
  (port 100, this node), and once it is withdrawn the translation returns (0, 0).  The
  address tests of addr.h are taken to accept this node's address as its own and the
  domain 0.
\<close>

theorem publish_then_translate:
  assumes "scope \<le> TIPC_NODE_SCOPE net"
    and "in_own_node net (own_addr net)" and "tipc_in_scope net 0 (own_addr net)"
  shows "(lower \<le> upper \<and> lower \<le> inst \<and> inst \<le> upper \<and>
          tipc_nametbl_insert_publ net tipc_nametbl_init type lower upper scope
            (own_addr net) port key m = (Some publ, evs, tbl, m')
          \<longrightarrow> tipc_nametbl_translate net tbl type inst 0 = Inr (port, own_addr net, tbl)) \<and>
         tipc_nametbl_insert_publ net tipc_nametbl_init 10 5 5 scope (own_addr net) 100 1 [] =
           (Some (new_publ 10 5 5 scope (own_addr net) 100 1), [],
            table_of (range_seq 10 5 5 [new_publ 10 5 5 scope (own_addr net) 100 1]
                                       [new_publ 10 5 5 scope (own_addr net) 100 1]), []) \<and>
         tipc_nametbl_translate net
           (table_of (range_seq 10 5 5 [new_publ 10 5 5 scope (own_addr net) 100 1]
                                       [new_publ 10 5 5 scope (own_addr net) 100 1])) 10 5 0 =
           Inr (100, own_addr net,
                table_of (range_seq 10 5 5 [new_publ 10 5 5 scope (own_addr net) 100 1]
                                           [new_publ 10 5 5 scope (own_addr net) 100 1])) \<and>
         tipc_nametbl_remove_publ net
           (table_of (range_seq 10 5 5 [new_publ 10 5 5 scope (own_addr net) 100 1]
                                       [new_publ 10 5 5 scope (own_addr net) 100 1]))
           10 5 (own_addr net) 100 1 =
           Inr (Some (new_publ 10 5 5 scope (own_addr net) 100 1), [], tipc_nametbl_init) \<and>
         tipc_nametbl_translate net tipc_nametbl_init 10 5 0 = Inr (0, 0, tipc_nametbl_init)"
proof (intro conjI impI)
  assume a: "lower \<le> upper \<and> lower \<le> inst \<and> inst \<le> upper \<and>
          tipc_nametbl_insert_publ net tipc_nametbl_init type lower upper scope
            (own_addr net) port key m = (Some publ, evs, tbl, m')"
  then have le: "lower \<le> upper"
    and pub: "tipc_nametbl_insert_publ net tipc_nametbl_init type lower upper scope
            (own_addr net) port key m = (Some publ, evs, tbl, m')"
    by simp_all
  have "publ = new_publ type lower upper scope (own_addr net) port key \<and> evs = [] \<and>
         tbl = table_of (range_seq type lower upper
                           (if in_own_node net (own_addr net) then [publ] else []) [publ])"
    by (rule publish_into_empty[OF assms(1) le pub])
  then have t: "tbl = table_of (range_seq type lower upper [publ] [publ])"
    and p: "p_port publ = port" "p_node publ = own_addr net"
    using assms(2) by (simp_all add: new_publ_def)
  show "tipc_nametbl_translate net tbl type inst 0 = Inr (port, own_addr net, tbl)"
    unfolding t using translate_range_seq_local[OF assms(3), of lower inst upper type publ "[publ]"]
      a p by simp
next
  show "tipc_nametbl_insert_publ net tipc_nametbl_init 10 5 5 scope (own_addr net) 100 1 [] =
           (Some (new_publ 10 5 5 scope (own_addr net) 100 1), [],
            table_of (range_seq 10 5 5 [new_publ 10 5 5 scope (own_addr net) 100 1]
                                       [new_publ 10 5 5 scope (own_addr net) 100 1]), [])"
    using assms(2) by (simp add: publish_into_empty_unfold[OF assms(1)])
next
  show "tipc_nametbl_translate net
           (table_of (range_seq 10 5 5 [new_publ 10 5 5 scope (own_addr net) 100 1]
                                       [new_publ 10 5 5 scope (own_addr net) 100 1])) 10 5 0 =
           Inr (100, own_addr net,
                table_of (range_seq 10 5 5 [new_publ 10 5 5 scope (own_addr net) 100 1]
                                           [new_publ 10 5 5 scope (own_addr net) 100 1]))"
    using translate_range_seq_local[OF assms(3), of 5 5 5 10
        "new_publ 10 5 5 scope (own_addr net) 100 1" "[new_publ 10 5 5 scope (own_addr net) 100 1]"]
    by (simp add: new_publ_def)
next
  show "tipc_nametbl_remove_publ net
           (table_of (range_seq 10 5 5 [new_publ 10 5 5 scope (own_addr net) 100 1]
                                       [new_publ 10 5 5 scope (own_addr net) 100 1]))
           10 5 (own_addr net) 100 1 =
           Inr (Some (new_publ 10 5 5 scope (own_addr net) 100 1), [], tipc_nametbl_init)"
    by (rule withdraw_range_seq_last[OF assms(2)]) (simp_all add: new_publ_def)
next
  show "tipc_nametbl_translate net tipc_nametbl_init 10 5 0 = Inr (0, 0, tipc_nametbl_init)"
    using assms(3) by (simp add: tipc_nametbl_translate_def find_seq_init)
qed

theorem publish_then_translate_witness:
  "tipc_nametbl_insert_publ example_net tipc_nametbl_init 10 5 9 3 0x1001001 100 1 [] =
     (Some (new_publ 10 5 9 3 0x1001001 100 1), [],
      table_of (range_seq 10 5 9 [new_publ 10 5 9 3 0x1001001 100 1]
                                 [new_publ 10 5 9 3 0x1001001 100 1]), []) \<and>
   tipc_nametbl_translate example_net
     (table_of (range_seq 10 5 9 [new_publ 10 5 9 3 0x1001001 100 1]
                                 [new_publ 10 5 9 3 0x1001001 100 1])) 10 7 0 =
     Inr (100, 0x1001001,
          table_of (range_seq 10 5 9 [new_publ 10 5 9 3 0x1001001 100 1]
                                     [new_publ 10 5 9 3 0x1001001 100 1])) \<and>
   tipc_nametbl_translate example_net
     (table_of (range_seq 10 5 5 [new_publ 10 5 5 3 0x1001001 100 1]
                                 [new_publ 10 5 5 3 0x1001001 100 1])) 10 5 0 =
     Inr (100, 0x1001001,
          table_of (range_seq 10 5 5 [new_publ 10 5 5 3 0x1001001 100 1]
                                     [new_publ 10 5 5 3 0x1001001 100 1])) \<and>
   tipc_nametbl_translate example_net tipc_nametbl_init 10 5 0 = Inr (0, 0, tipc_nametbl_init)"
proof -
  have v: "(3::u32) \<le> TIPC_NODE_SCOPE example_net"
    and o: "in_own_node example_net (own_addr example_net)"
    and s: "tipc_in_scope example_net 0 (own_addr example_net)"
    and own: "own_addr example_net = 0x1001001"
    by (simp_all add: example_net_def)
  have e: "tipc_nametbl_insert_publ example_net tipc_nametbl_init 10 5 9 3 0x1001001 100 1 [] =
     (Some (new_publ 10 5 9 3 0x1001001 100 1), [],
      table_of (range_seq 10 5 9 [new_publ 10 5 9 3 0x1001001 100 1]
                                 [new_publ 10 5 9 3 0x1001001 100 1]), [])"
    using o by (simp add: publish_into_empty_unfold[OF v] own)
  show ?thesis
    using publish_then_translate[OF v o s, of 5 9 7 10 100 1 "[]"
        "new_publ 10 5 9 3 0x1001001 100 1" "[]"
        "table_of (range_seq 10 5 9 [new_publ 10 5 9 3 0x1001001 100 1]
                                    [new_publ 10 5 9 3 0x1001001 100 1])" "[]"] e
    by (simp add: own)
qed

subsection \<open>C4: a publish that fails on an allocation\<close>

lemma insert_publ_nil_None:
  assumes "tipc_nameseq_insert_publ net nseq type lower upper scope node port key [] =
           (None, evs, nseq', m')"
  shows "evs = [] \<and> nseq' = nseq"
proof (cases "nameseq_find_subseq nseq lower")
  case (Some i)
  show ?thesis
    using assms insert_a_publication_nil[of net nseq i False type lower upper scope node port key]
    unfolding insert_publ_found[OF Some]
    by (auto split: if_splits)
next
  case None
  obtain nseq1 where e: "ensure_space nseq [] = (Some nseq1, [])"
    using ensure_space_nil by blast
  define p where "p = nameseq_locate_subseq nseq lower"
  define nseq2 where "nseq2 = nseq1\<lparr>sseqs := (memmove (sseqs nseq1) (Suc p) p (first_free nseq1 - p))
                                          [p := new_sub_seq lower upper],
                              first_free := Suc (first_free nseq1)\<rparr>"
  obtain publ es n' where i: "insert_a_publication net nseq2 p True
        type lower upper scope node port key [] = (Some publ, es, n', [])"
    using insert_a_publication_nil by blast
  have "tipc_nameseq_insert_publ net nseq type lower upper scope node port key [] =
     (if p < first_free nseq \<and> ss_lower (sseqs nseq ! p) \<le> upper then (None, [], nseq, [])
      else (Some publ, es, n', []))"
    unfolding insert_publ_new[OF None]
    by (simp add: Let_def e p_def[symmetric] nseq2_def[symmetric] i)
  then show ?thesis using assms by (auto split: if_splits)
qed

lemma publish_rejected_unchanged:
  assumes "tipc_nametbl_insert_publ net tbl type lower upper scope node port key [] =
           (None, evs, tbl', m')"
  shows "evs = [] \<and> tbl' = tbl"
proof (cases "scope > TIPC_NODE_SCOPE net \<or> lower > upper")
  case True
  then show ?thesis using assms by (auto simp: tipc_nametbl_insert_publ_def Let_def)
next
  case valid: False
  then have v: "scope \<le> TIPC_NODE_SCOPE net" "lower \<le> upper" by (simp_all add: not_less)
  show ?thesis
  proof (cases "nametbl_find_seq tbl type")
    case None
    have "fst (tipc_nametbl_insert_publ net tbl type lower upper scope node port key []) \<noteq> None"
      using valid
      by (simp add: tipc_nametbl_insert_publ_def Let_def None nameseq_create_cases
          insert_into_fresh insert_a_publication_range_seq)
    then show ?thesis using assms by simp
  next
    case (Some nseq)
    obtain r e n m2 where i: "tipc_nameseq_insert_publ net nseq type lower upper scope node port key []
         = (r, e, n, m2)"
      by (cases "tipc_nameseq_insert_publ net nseq type lower upper scope node port key []") auto
    then have "r = None" "evs = e" "tbl' = nametbl_store tbl n"
      using assms valid by (simp_all add: tipc_nametbl_insert_publ_def Let_def Some)
    moreover have "e = [] \<and> n = nseq" using insert_publ_nil_None[of net nseq] i \<open>r = None\<close> by simp
    moreover have "nametbl_store tbl nseq = tbl"
      using nametbl_store_same[of tbl nseq] Some find_seq_type[OF Some] by simp
    ultimately show ?thesis by simp
  qed
qed

text \<open>
  C4 fails on the code when an allocation fails after something was linked in.  A publish
  into the empty table whose third allocation (the \<^verbatim>\<open>name_info\<close>) fails returns NULL and
  leaves the name sequence it has just created in the table; one whose fourth allocation
  (the publication) fails returns NULL and leaves also the new sub-sequence in the array,
  with both of its lists empty, where a later translation takes the first entry of an
  empty list.  A publish rejected for its arguments, for an overlap or for a duplicate,
  with no allocation failing, leaves the table as it was (\<open>publish_rejected_unchanged\<close>).
\<close>

theorem failed_allocation_leaves_partial_state:
  "tipc_nametbl_insert_publ example_net tipc_nametbl_init 10 5 5 3 0x1001001 100 1
     [True, True, False] = (None, [], table_of (fresh_seq 10), []) \<and>
   nametbl_find_seq tipc_nametbl_init 10 = None \<and>
   nametbl_find_seq (table_of (fresh_seq 10)) 10 = Some (fresh_seq 10) \<and>
   tipc_nametbl_insert_publ example_net tipc_nametbl_init 10 5 5 3 0x1001001 100 1
     [True, True, True, False] = (None, [], table_of (range_seq 10 5 5 [] []), []) \<and>
   nametbl_find_seq (table_of (range_seq 10 5 5 [] [])) 10 = Some (range_seq 10 5 5 [] []) \<and>
   live (range_seq 10 5 5 [] []) = [new_sub_seq 5 5] \<and>
   tipc_nametbl_translate example_net (table_of (range_seq 10 5 5 [] [])) 10 5 0 =
     Inl Bad_list_access"
proof -
  have v: "(3::u32) \<le> TIPC_NODE_SCOPE example_net" "(5::u32) \<le> 5"
    and s: "tipc_in_scope example_net 0 (own_addr example_net)"
    by (simp_all add: example_net_def)
  have f1: "nametbl_find_seq (table_of (fresh_seq 10)) 10 = Some (fresh_seq 10)"
    using find_seq_table_of[of "fresh_seq 10"] by (simp add: fresh_seq_def)
  have f2: "nametbl_find_seq (table_of (range_seq 10 5 5 [] [])) 10 = Some (range_seq 10 5 5 [] [])"
    using find_seq_table_of[of "range_seq 10 5 5 [] []"] by simp
  have t: "tipc_nametbl_translate example_net (table_of (range_seq 10 5 5 [] [])) 10 5 0 =
     Inl Bad_list_access"
    unfolding translate_found[OF s f2 find_subseq_range_seq[OF v(2) v(2)]]
    by (simp add: translate_select_def select_all_def list_first_entry_def)
  show ?thesis
    using f1 f2 t
    by (simp add: publish_into_empty_unfold[OF v] find_seq_init live_def range_seq_def
        new_sub_seq_def empty_info_def)
qed

subsection \<open>C3: when a publish is rejected\<close>

lemma list_ex_live:
  assumes "array_ok nseq"
  shows "list_ex P (live nseq) \<longleftrightarrow> (\<exists>k<first_free nseq. P (sseqs nseq ! k))"
proof -
  have "list_ex P (live nseq) \<longleftrightarrow> (\<exists>k<length (live nseq). P (live nseq ! k))"
    unfolding list_ex_iff by (metis in_set_conv_nth)
  then show ?thesis using length_live[OF assms] by (auto simp: live_nth)
qed

lemma nth_lower_mono:
  assumes wf: "nameseq_wf nseq" and "p \<le> k" "k < first_free nseq"
  shows "ss_lower (sseqs nseq ! p) \<le> ss_lower (sseqs nseq ! k)"
proof (cases "p = k")
  case True
  then show ?thesis by simp
next
  case False
  note w = wf_take[OF wf]
  have lt: "p < k" using False assms(2) by simp
  have "ss_lower (sseqs nseq ! p) \<le> ss_upper (sseqs nseq ! p)"
    using ranges_ok_nth_le[of "first_free nseq" "sseqs nseq" p] w lt assms(3) by simp
  also have "\<dots> < ss_lower (sseqs nseq ! k)"
    using ranges_ok_nth_less[of "first_free nseq" "sseqs nseq" p k] w lt assms(3) by simp
  finally show ?thesis by simp
qed

lemma overlap_same_slot:
  assumes wf: "nameseq_wf nseq" and i: "i < first_free nseq" and k: "k < first_free nseq"
    and o: "overlaps (sseqs nseq ! k) (ss_lower (sseqs nseq ! i)) (ss_upper (sseqs nseq ! i))"
  shows "k = i"
proof (rule ccontr)
  assume ne: "k \<noteq> i"
  note w = wf_take[OF wf]
  show False
  proof (cases "k < i")
    case True
    then have "ss_upper (sseqs nseq ! k) < ss_lower (sseqs nseq ! i)"
      using ranges_ok_nth_less[of "first_free nseq" "sseqs nseq" k i] w i by simp
    then show False using o by (auto simp: overlaps_def)
  next
    case False
    then have "i < k" using ne by simp
    then have "ss_upper (sseqs nseq ! i) < ss_lower (sseqs nseq ! k)"
      using ranges_ok_nth_less[of "first_free nseq" "sseqs nseq" i k] w k by simp
    then show False using o by (auto simp: overlaps_def)
  qed
qed

lemma insert_publ_rejected_iff:
  assumes wf: "nameseq_wf nseq" and le: "lower \<le> upper"
  shows "fst (tipc_nameseq_insert_publ net nseq type lower upper scope node port key []) = None
         \<longleftrightarrow> range_conflict nseq lower upper \<or>
             duplicate_conflict nseq lower upper node port key"
proof -
  have ok: "array_ok nseq" using wf by (simp add: nameseq_wf_def)
  note rc = list_ex_live[OF ok, of "\<lambda>s. overlaps s lower upper \<and> \<not> exact s lower upper",
      folded range_conflict_def]
  note dc = list_ex_live[OF ok, of "\<lambda>s. exact s lower upper \<and> duplicate s node port key",
      folded duplicate_conflict_def]
  show ?thesis
  proof (cases "nameseq_find_subseq nseq lower")
    case (Some i)
    have i: "i < first_free nseq" and c: "contains (sseqs nseq ! i) lower"
      using find_subseq_Some[OF Some] by simp_all
    obtain publ es n' where a: "insert_a_publication net nseq i False
        type lower upper scope node port key [] = (Some publ, es, n', [])"
      using insert_a_publication_nil by blast
    have l: "fst (tipc_nameseq_insert_publ net nseq type lower upper scope node port key []) = None
         \<longleftrightarrow> \<not> exact (sseqs nseq ! i) lower upper \<or> duplicate (sseqs nseq ! i) node port key"
      unfolding insert_publ_found[OF Some] by (auto simp: a exact_def)
    have r1: "range_conflict nseq lower upper \<longleftrightarrow> \<not> exact (sseqs nseq ! i) lower upper"
    proof
      assume "range_conflict nseq lower upper"
      then obtain k where k: "k < first_free nseq" "overlaps (sseqs nseq ! k) lower upper"
        "\<not> exact (sseqs nseq ! k) lower upper"
        using rc by blast
      show "\<not> exact (sseqs nseq ! i) lower upper"
      proof
        assume e: "exact (sseqs nseq ! i) lower upper"
        then have "k = i"
          using overlap_same_slot[OF wf i k(1)] k(2) by (simp add: exact_def)
        then show False using k(3) e by simp
      qed
    next
      assume n: "\<not> exact (sseqs nseq ! i) lower upper"
      have "overlaps (sseqs nseq ! i) lower upper"
        using c le by (auto simp: overlaps_def contains_def)
      then show "range_conflict nseq lower upper" using rc i n by blast
    qed
    have r2: "duplicate_conflict nseq lower upper node port key \<longleftrightarrow>
          exact (sseqs nseq ! i) lower upper \<and> duplicate (sseqs nseq ! i) node port key"
    proof
      assume "duplicate_conflict nseq lower upper node port key"
      then obtain k where k: "k < first_free nseq" "exact (sseqs nseq ! k) lower upper"
        "duplicate (sseqs nseq ! k) node port key"
        using dc by blast
      then have "contains (sseqs nseq ! k) lower"
        using le by (simp add: exact_def contains_def)
      then have "k = i" using contains_unique[OF wf k(1) i _ c] by simp
      then show "exact (sseqs nseq ! i) lower upper \<and> duplicate (sseqs nseq ! i) node port key"
        using k by simp
    next
      assume "exact (sseqs nseq ! i) lower upper \<and> duplicate (sseqs nseq ! i) node port key"
      then show "duplicate_conflict nseq lower upper node port key" using dc i by blast
    qed
    show ?thesis unfolding l r1 r2 by blast
  next
    case None
    define p where "p = nameseq_locate_subseq nseq lower"
    note m = locate_subseq_miss[OF wf None, folded p_def]
    obtain nseq1 where e: "ensure_space nseq [] = (Some nseq1, [])"
      using ensure_space_nil by blast
    define nseq2 where "nseq2 = nseq1\<lparr>sseqs := (memmove (sseqs nseq1) (Suc p) p (first_free nseq1 - p))
                                          [p := new_sub_seq lower upper],
                              first_free := Suc (first_free nseq1)\<rparr>"
    obtain publ es n' where a: "insert_a_publication net nseq2 p True
        type lower upper scope node port key [] = (Some publ, es, n', [])"
      using insert_a_publication_nil by blast
    have l: "fst (tipc_nameseq_insert_publ net nseq type lower upper scope node port key []) = None
         \<longleftrightarrow> p < first_free nseq \<and> ss_lower (sseqs nseq ! p) \<le> upper"
      unfolding insert_publ_new[OF None]
      by (simp add: Let_def e p_def[symmetric] nseq2_def[symmetric] a)
    have r1: "range_conflict nseq lower upper \<longleftrightarrow>
          p < first_free nseq \<and> ss_lower (sseqs nseq ! p) \<le> upper"
    proof
      assume "range_conflict nseq lower upper"
      then obtain k where k: "k < first_free nseq" "overlaps (sseqs nseq ! k) lower upper"
        using rc by blast
      have pk: "p \<le> k"
      proof (rule ccontr)
        assume "\<not> p \<le> k"
        then have "ss_upper (sseqs nseq ! k) < lower" using m(2)[of k] by simp
        then show False using k(2) by (auto simp: overlaps_def)
      qed
      have "ss_lower (sseqs nseq ! p) \<le> ss_lower (sseqs nseq ! k)"
        by (rule nth_lower_mono[OF wf pk k(1)])
      also have "\<dots> \<le> upper" using k(2) by (simp add: overlaps_def)
      finally show "p < first_free nseq \<and> ss_lower (sseqs nseq ! p) \<le> upper"
        using pk k(1) by simp
    next
      assume a: "p < first_free nseq \<and> ss_lower (sseqs nseq ! p) \<le> upper"
      then have lt: "lower < ss_lower (sseqs nseq ! p)" using m(3)[of p] by simp
      have "ss_lower (sseqs nseq ! p) \<le> ss_upper (sseqs nseq ! p)"
        using ranges_ok_nth_le[of "first_free nseq" "sseqs nseq" p] wf_take[OF wf] a by simp
      then have "overlaps (sseqs nseq ! p) lower upper" using lt a by (simp add: overlaps_def)
      moreover have "\<not> exact (sseqs nseq ! p) lower upper" using lt by (auto simp: exact_def)
      ultimately show "range_conflict nseq lower upper" using rc a by blast
    qed
    have r2: "\<not> duplicate_conflict nseq lower upper node port key"
    proof
      assume "duplicate_conflict nseq lower upper node port key"
      then obtain k where k: "k < first_free nseq" "exact (sseqs nseq ! k) lower upper"
        using dc by blast
      then have "contains (sseqs nseq ! k) lower"
        using le by (simp add: exact_def contains_def)
      then show False using find_subseq_None[OF wf None k(1)] by simp
    qed
    show ?thesis unfolding l r1 using r2 by blast
  qed
qed

lemma nametbl_insert_publ_found:
  assumes "scope \<le> TIPC_NODE_SCOPE net" "lower \<le> upper"
    and "nametbl_find_seq tbl type = Some nseq"
  shows "tipc_nametbl_insert_publ net tbl type lower upper scope node port key m =
     (case tipc_nameseq_insert_publ net nseq type lower upper scope node port key m of
        (publ, reports, nseq', m2) \<Rightarrow> (publ, reports, nametbl_store tbl nseq', m2))"
proof -
  have "\<not> (TIPC_NODE_SCOPE net < scope \<or> upper < lower)"
    using assms(1,2) by (simp add: not_less)
  then show ?thesis
    by (simp add: tipc_nametbl_insert_publ_def Let_def assms(3))
qed

lemma nametbl_insert_publ_absent:
  assumes "scope \<le> TIPC_NODE_SCOPE net" "lower \<le> upper"
    and "nametbl_find_seq tbl type = None"
  shows "fst (tipc_nametbl_insert_publ net tbl type lower upper scope node port key []) \<noteq> None"
proof -
  have "\<not> (TIPC_NODE_SCOPE net < scope \<or> upper < lower)"
    using assms(1,2) by (simp add: not_less)
  then show ?thesis
    by (simp add: tipc_nametbl_insert_publ_def Let_def assms(3) nameseq_create_cases
        insert_into_fresh insert_a_publication_range_seq)
qed

lemma publish_exact_range:
  assumes v: "scope \<le> TIPC_NODE_SCOPE net" "lower \<le> upper"
    and f: "nametbl_find_seq tbl type = Some seq" and wf: "nameseq_wf seq"
    and i: "i < first_free seq" and e: "exact (sseqs seq ! i) lower upper"
    and d: "\<not> duplicate (sseqs seq ! i) node port key"
  shows "\<exists>evs tbl' seq'.
           tipc_nametbl_insert_publ net tbl type lower upper scope node port key [] =
             (Some (new_publ type lower upper scope node port key), evs, tbl', []) \<and>
           nametbl_find_seq tbl' type = Some seq' \<and>
           nameseq_find_subseq seq' lower = Some i \<and>
           all_publ (info (sseqs seq' ! i)) =
             new_publ type lower upper scope node port key # all_publ (info (sseqs seq ! i))"
proof -
  have c: "contains (sseqs seq ! i) lower" using e v(2) by (simp add: exact_def contains_def)
  have fs: "nameseq_find_subseq seq lower = Some i"
    using find_subseq_iff[OF wf] i c by simp
  obtain publ evs seq' where a: "insert_a_publication net seq i False
        type lower upper scope node port key [] = (Some publ, evs, seq', [])"
    using insert_a_publication_nil by blast
  have r: "tipc_nameseq_insert_publ net seq type lower upper scope node port key [] =
           (Some publ, evs, seq', [])"
    unfolding insert_publ_found[OF fs] using e d a by (simp add: exact_def)
  note s = insert_publ_Some_found[OF wf fs r]
  have wf': "nameseq_wf seq'" by (rule insert_publ_wf[OF wf v(2) r])
  have len: "i < length (sseqs seq)" using wf i by (simp add: nameseq_wf_def array_ok_def)
  have slot: "sseqs seq' ! i = add_publ net publ (sseqs seq ! i)"
    using len by (simp add: s(5))
  have ff: "first_free seq' = first_free seq" by (simp add: s(5))
  have ty: "ns_type seq' = type" using find_seq_type[OF f] by (simp add: s(5))
  have "contains (sseqs seq' ! i) lower" using c by (simp add: slot contains_def)
  then have fs': "nameseq_find_subseq seq' lower = Some i"
    using find_subseq_iff[OF wf'] i ff by simp
  have t: "tipc_nametbl_insert_publ net tbl type lower upper scope node port key [] =
             (Some publ, evs, nametbl_store tbl seq', [])"
    by (simp add: nametbl_insert_publ_found[OF v f] r)
  have "nametbl_find_seq (nametbl_store tbl seq') type = Some seq'"
    using find_seq_store[of tbl seq'] f ty by simp
  then show ?thesis using t fs' slot s(1) by simp
qed

text \<open>
  C3 (as amended).  A publish with valid arguments (\<open>lower \<le> upper\<close>, a scope up to
  \<^verbatim>\<open>TIPC_NODE_SCOPE\<close>) in which no allocation fails returns NULL exactly when the new range
  overlaps a sub-sequence of the type without matching it exactly (same lower and same
  upper), or when a sub-sequence of exactly the new range holds a publication of the
  same port and key whose node is the new node or zero.  Publishing the range of a
  sub-sequence that holds no such publication succeeds, and the new publication stands
  in front of the earlier ones in that sub-sequence's \<open>all_publ\<close>.
\<close>

theorem publish_rejected_iff:
  assumes "scope \<le> TIPC_NODE_SCOPE net" "lower \<le> upper" "wf_at tbl type"
  shows "(fst (tipc_nametbl_insert_publ net tbl type lower upper scope node port key []) = None
          \<longleftrightarrow> publish_conflict tbl type lower upper node port key) \<and>
         (nametbl_find_seq tbl type = Some seq \<and> i < first_free seq \<and>
          exact (sseqs seq ! i) lower upper \<and> \<not> duplicate (sseqs seq ! i) node port key
          \<longrightarrow> (\<exists>evs tbl' seq'.
                 tipc_nametbl_insert_publ net tbl type lower upper scope node port key [] =
                   (Some (new_publ type lower upper scope node port key), evs, tbl', []) \<and>
                 nametbl_find_seq tbl' type = Some seq' \<and>
                 nameseq_find_subseq seq' lower = Some i \<and>
                 all_publ (info (sseqs seq' ! i)) =
                   new_publ type lower upper scope node port key #
                   all_publ (info (sseqs seq ! i))))"
proof (intro conjI impI)
  show "fst (tipc_nametbl_insert_publ net tbl type lower upper scope node port key []) = None
          \<longleftrightarrow> publish_conflict tbl type lower upper node port key"
  proof (cases "nametbl_find_seq tbl type")
    case None
    then show ?thesis
      using nametbl_insert_publ_absent[OF assms(1,2) None]
      by (simp add: publish_conflict_def)
  next
    case (Some nseq)
    then have wf: "nameseq_wf nseq" using assms(3) by (simp add: wf_at_def)
    have "fst (tipc_nametbl_insert_publ net tbl type lower upper scope node port key []) =
          fst (tipc_nameseq_insert_publ net nseq type lower upper scope node port key [])"
      by (simp add: nametbl_insert_publ_found[OF assms(1,2) Some] split: prod.splits)
    then show ?thesis
      using insert_publ_rejected_iff[OF wf assms(2), of net type scope node port key]
      by (simp add: publish_conflict_def Some)
  qed
next
  assume a: "nametbl_find_seq tbl type = Some seq \<and> i < first_free seq \<and>
          exact (sseqs seq ! i) lower upper \<and> \<not> duplicate (sseqs seq ! i) node port key"
  then have wf: "nameseq_wf seq" using assms(3) by (simp add: wf_at_def)
  show "\<exists>evs tbl' seq'.
                 tipc_nametbl_insert_publ net tbl type lower upper scope node port key [] =
                   (Some (new_publ type lower upper scope node port key), evs, tbl', []) \<and>
                 nametbl_find_seq tbl' type = Some seq' \<and>
                 nameseq_find_subseq seq' lower = Some i \<and>
                 all_publ (info (sseqs seq' ! i)) =
                   new_publ type lower upper scope node port key #
                   all_publ (info (sseqs seq ! i))"
    using publish_exact_range[OF assms(1,2) _ wf, of tbl type i node port key] a by simp
qed

lemma table_of_seq_one_find: "nametbl_find_seq (table_of seq_one) 10 = Some seq_one"
  using find_seq_table_of[of seq_one] by (simp add: seq_one_def)

lemma seq_one_wf: "nameseq_wf seq_one"
  by (simp add: nameseq_wf_def ranges_ok_def array_ok_def live_def seq_one_def)

theorem publish_rejected_iff_witness:
  "publish_conflict (table_of seq_one) 10 5 9 0x1001002 200 2 \<and>
   fst (tipc_nametbl_insert_publ example_net (table_of seq_one) 10 5 9 3 0x1001002 200 2 []) = None \<and>
   publish_conflict (table_of seq_one) 10 5 5 0x1001001 100 1 \<and>
   fst (tipc_nametbl_insert_publ example_net (table_of seq_one) 10 5 5 3 0x1001001 100 1 []) = None \<and>
   \<not> publish_conflict (table_of seq_one) 10 5 5 0x1001002 200 2 \<and>
   fst (tipc_nametbl_insert_publ example_net (table_of seq_one) 10 5 5 3 0x1001002 200 2 []) =
     Some publ_b"
proof -
  have v: "(3::u32) \<le> TIPC_NODE_SCOPE example_net" by (simp add: example_net_def)
  have w: "wf_at (table_of seq_one) 10"
    by (simp add: wf_at_def table_of_seq_one_find seq_one_wf)
  have c1: "publish_conflict (table_of seq_one) 10 5 9 0x1001002 200 2"
    and c2: "publish_conflict (table_of seq_one) 10 5 5 0x1001001 100 1"
    and c3: "\<not> publish_conflict (table_of seq_one) 10 5 5 0x1001002 200 2"
    unfolding publish_conflict_def table_of_seq_one_find
    by (simp_all add: range_conflict_def duplicate_conflict_def duplicate_def overlaps_def
        exact_def live_def seq_one_def publ_a_def new_publ_def)
  have e: "0 < first_free seq_one \<and> exact (sseqs seq_one ! 0) 5 5 \<and>
           \<not> duplicate (sseqs seq_one ! 0) 0x1001002 200 2"
    by (simp add: seq_one_def exact_def duplicate_def publ_a_def new_publ_def)
  have l1: "(5::u32) \<le> 9" and l2: "(5::u32) \<le> 5" by simp_all
  have r1: "fst (tipc_nametbl_insert_publ example_net (table_of seq_one) 10 5 9 3 0x1001002 200 2 [])
            = None"
    using publish_rejected_iff[OF v l1 w, of "0x1001002" 200 2] c1 by simp
  have r2: "fst (tipc_nametbl_insert_publ example_net (table_of seq_one) 10 5 5 3 0x1001001 100 1 [])
            = None"
    using publish_rejected_iff[OF v l2 w, of "0x1001001" 100 1] c2 by simp
  have r3: "fst (tipc_nametbl_insert_publ example_net (table_of seq_one) 10 5 5 3 0x1001002 200 2 [])
            = Some publ_b"
    using publish_rejected_iff[OF v l2 w, of "0x1001002" 200 2 seq_one 0] e table_of_seq_one_find
    by (auto simp: publ_b_def)
  show ?thesis using c1 c2 c3 r1 r2 r3 by simp
qed

text \<open>
  The claim as it stands fails: a publish of the range \<open>[6, 5]\<close> (\<open>lower > upper\<close>) into the
  empty table is rejected by the guard of \<^verbatim>\<open>tipc_nametbl_insert_publ\<close>, and so is a publish
  with valid arguments whose first allocation fails, and nothing overlaps and nothing is
  duplicated there.
\<close>

theorem publish_rejected_without_conflict:
  "fst (tipc_nametbl_insert_publ example_net tipc_nametbl_init 10 6 5 3 0x1001001 100 1 []) = None \<and>
   \<not> publish_conflict tipc_nametbl_init 10 6 5 0x1001001 100 1 \<and>
   fst (tipc_nametbl_insert_publ example_net tipc_nametbl_init 10 5 5 3 0x1001001 100 1 [False])
     = None \<and>
   \<not> publish_conflict tipc_nametbl_init 10 5 5 0x1001001 100 1"
proof -
  have v: "(3::u32) \<le> TIPC_NODE_SCOPE example_net" "(5::u32) \<le> 5"
    by (simp_all add: example_net_def)
  have "fst (tipc_nametbl_insert_publ example_net tipc_nametbl_init 10 6 5 3 0x1001001 100 1 [])
        = None"
    by (simp add: tipc_nametbl_insert_publ_def example_net_def Let_def)
  moreover have "fst (tipc_nametbl_insert_publ example_net tipc_nametbl_init 10 5 5 3 0x1001001
        100 1 [False]) = None"
    by (simp add: publish_into_empty_unfold[OF v] split: prod.splits)
  moreover have "\<not> publish_conflict tipc_nametbl_init 10 lower upper 0x1001001 100 1"
    for lower upper
    by (simp add: publish_conflict_def find_seq_init)
  ultimately show ?thesis by simp
qed

subsection \<open>C5: round robin of the lookup\<close>

lemma port_key_simps [simp]:
  "binding_port_key (node, port, key) = (port, key)"
  "publ_port_key (new_publ type lower upper scope node port key) = (port, key)"
  by (simp_all add: binding_port_key_def publ_port_key_def new_publ_def)



lemma length_published [simp]: "length (published type lower upper scope bs) = length bs"
  by (simp add: published_def)


















subsection \<open>Publications are found by their value\<close>

lemma lists_ok_add_publ:
  assumes "lists_ok net s" "\<not> duplicate s node port key"
  shows "lists_ok net (add_publ net (new_publ type lower upper scope node port key) s)"
proof -
  define p where "p = new_publ type lower upper scope node port key"
  have pf: "p_port p = port" "p_key p = key" "p_node p = node"
    by (simp_all add: p_def new_publ_def)
  have n: "p \<notin> set (all_publ (info s))"
  proof
    assume "p \<in> set (all_publ (info s))"
    then have "duplicate s node port key"
      using pf by (auto simp: duplicate_def list_ex_iff)
    then show False using assms(2) by simp
  qed
  have l: "p \<notin> set (local_publ (info s))"
    using assms(1) n by (auto simp: lists_ok_def list_all_iff)
  show ?thesis
    unfolding p_def[symmetric]
    using assms(1) n l by (auto simp: lists_ok_def add_publ_def list_all_iff)
qed

lemma lists_ok_new_sub_seq: "lists_ok net (new_sub_seq lower upper)"
  by (simp add: lists_ok_def new_sub_seq_def empty_info_def)

lemma not_duplicate_new_sub_seq: "\<not> duplicate (new_sub_seq lower upper) node port key"
  by (simp add: duplicate_def new_sub_seq_def empty_info_def)

lemma list_all_update:
  "list_all P xs \<Longrightarrow> P y \<Longrightarrow> list_all P (xs[i := y])"
  using set_update_subset_insert[of xs i y] by (auto simp: list_all_iff)

lemma list_move_tail_lists:
  assumes "distinct xs" "p \<in> set xs"
  shows "distinct (list_move_tail p xs)" and "set (list_move_tail p xs) = set xs"
  using assms by (auto simp: list_move_tail_def)

text \<open>A publication insert keeps the property.\<close>

lemma insert_publ_lists_ok:
  assumes wf: "nameseq_wf nseq" and ok: "nameseq_lists_ok net nseq"
    and r: "tipc_nameseq_insert_publ net nseq type lower upper scope node port key m =
            (Some publ, evs, nseq', m')"
  shows "nameseq_lists_ok net nseq'"
proof (cases "nameseq_find_subseq nseq lower")
  case (Some i)
  note s = insert_publ_Some_found[OF wf Some r]
  have i: "i < first_free nseq" using find_subseq_Some[OF Some] by simp
  have a: "array_ok nseq" using wf by (simp add: nameseq_wf_def)
  have il: "i < length (live nseq)" using i by (simp add: length_live[OF a])
  have "lists_ok net (live nseq ! i)"
    using ok il by (simp add: nameseq_lists_ok_def list_all_length)
  then have "lists_ok net (add_publ net publ (live nseq ! i))"
    unfolding s(1) using s(4) by (intro lists_ok_add_publ) (simp_all add: live_nth[OF i])
  then show ?thesis
    using ok unfolding nameseq_lists_ok_def s(6) by (intro list_all_update)
next
  case None
  note s = insert_publ_Some_new[OF wf None r]
  have "lists_ok net (add_publ net publ (new_sub_seq lower upper))"
    unfolding s(1)
    by (intro lists_ok_add_publ lists_ok_new_sub_seq not_duplicate_new_sub_seq)
  then show ?thesis
    using ok unfolding nameseq_lists_ok_def s(5)
    by (auto simp: list_all_iff dest: in_set_takeD in_set_dropD)
qed

text \<open>
  So does a publication remove, unless it is made with the address of another node and
  takes a publication whose node is zero: that one the code leaves on \<open>local_publ\<close>.
\<close>

lemma remove_publ_lists_ok:
  assumes wf: "nameseq_wf nseq" and ok: "nameseq_lists_ok net nseq"
    and r: "tipc_nameseq_remove_publ net nseq inst node port key = Inr (res, evs, nseq')"
    and c: "in_own_node net node \<or> \<not> in_own_node net 0"
  shows "nameseq_lists_ok net nseq'"
proof (cases "nameseq_find_subseq nseq inst")
  case None
  then show ?thesis using r ok by (simp add: remove_publ_miss)
next
  case (Some i)
  have i: "i < first_free nseq" using find_subseq_Some[OF Some] by simp
  have a: "array_ok nseq" using wf by (simp add: nameseq_wf_def)
  have il: "i < length (live nseq)" using i by (simp add: length_live[OF a])
  define s where "s = sseqs nseq ! i"
  have "lists_ok net (live nseq ! i)"
    using ok il by (simp add: nameseq_lists_ok_def list_all_length)
  then have sok: "lists_ok net s"
    by (simp add: s_def live_nth[OF i])
  show ?thesis
  proof (cases "find (\<lambda>publ. matches publ node port key) (all_publ (info s))")
    case None
    then show ?thesis
      using r ok by (simp add: remove_publ_found[OF Some] s_def)
  next
    case (Some publ)
    have m: "matches publ node port key"
      using Some by (auto simp: find_Some_iff)
    define loc where "loc = (if in_own_node net node then remove1 publ (local_publ (info s))
                             else local_publ (info s))"
    define s' where "s' = s\<lparr>info := \<lparr>local_publ = loc,
                                       all_publ = remove1 publ (all_publ (info s))\<rparr>\<rparr>"
    have n: "nseq' = (if remove1 publ (all_publ (info s)) = []
                      then nseq\<lparr>sseqs := memmove (sseqs nseq) i (Suc i) (first_free nseq - Suc i),
                                first_free := first_free nseq - 1\<rparr>
                      else nseq\<lparr>sseqs := (sseqs nseq)[i := s']\<rparr>)"
      using r
      by (simp add: remove_publ_found[OF \<open>nameseq_find_subseq nseq inst = Some i\<close>]
          Some[unfolded s_def] s_def s'_def loc_def split: if_splits)
    have nl: "publ \<notin> set (local_publ (info s))" if "\<not> in_own_node net node"
    proof
      assume "publ \<in> set (local_publ (info s))"
      then have "in_own_node net (p_node publ)"
        using sok by (auto simp: lists_ok_def list_all_iff)
      then show False using m that c by (auto simp: matches_def)
    qed
    have s'ok: "lists_ok net s'"
    proof (cases "in_own_node net node")
      case True
      then show ?thesis
        using sok by (auto simp: lists_ok_def s'_def loc_def list_all_iff)
    next
      case False
      then show ?thesis
        using sok nl[OF False] by (auto simp: lists_ok_def s'_def loc_def list_all_iff)
    qed
    show ?thesis
    proof (cases "remove1 publ (all_publ (info s)) = []")
      case True
      have "live nseq' = take i (live nseq) @ drop (Suc i) (live nseq)"
        using remove_slot_wf(3)[OF wf i] n True by simp
      then show ?thesis
        using ok by (auto simp: nameseq_lists_ok_def list_all_iff dest: in_set_takeD in_set_dropD)
    next
      case False
      have "live nseq' = (live nseq)[i := s']"
        using update_slot_wf(2)[OF wf i, of s'] n False by (simp add: s'_def s_def)
      then show ?thesis
        using ok s'ok by (simp add: nameseq_lists_ok_def list_all_update)
    qed
  qed
qed

end
